theory Spec2Isabelle
  imports Complex_Main "HOL-Library.Sublist" "HOL-Library.List_Lexorder" "HOL-Library.Char_ord"
    "HOL-Library.AList"
begin

section \<open>Values: Python numbers, table cells, errors\<close>

text \<open>
  The numeric columns of the tables are 64-bit floats. A float is a finite
  value, given by the real number it stands for, an infinity or NaN; the one
  zero of the model stands for \<open>+0.0\<close>. Python's integers (\<open>98\<close>, \<open>99\<close>,
  \<open>50\<close>, \<open>0\<close>) compare with floats by value, so they are finite values as
  well. Comparisons of floats are exact. A quotient of two finite floats is
  rounded, and the rounding is a parameter of the model: \<open>rnd x\<close> is the float
  the machine returns for the real quotient \<open>x\<close> (the nearest float, an
  infinity when \<open>x\<close> is out of range). Nothing is assumed of it.
\<close>

datatype pyfloat = Fin real | PInf | NInf | NaN

type_synonym rounding = "real \<Rightarrow> pyfloat"

text \<open>\<open>a < b\<close>: every comparison with NaN is false.\<close>

fun fl_lt :: "pyfloat \<Rightarrow> pyfloat \<Rightarrow> bool" where
  "fl_lt (Fin a) (Fin b) = (a < b)"
| "fl_lt (Fin a) PInf = True"
| "fl_lt NInf (Fin b) = True"
| "fl_lt NInf PInf = True"
| "fl_lt _ _ = False"

text \<open>\<open>a >= b\<close> and \<open>a > b\<close>.\<close>

fun fl_ge :: "pyfloat \<Rightarrow> pyfloat \<Rightarrow> bool" where
  "fl_ge NaN _ = False"
| "fl_ge _ NaN = False"
| "fl_ge a b = (\<not> fl_lt a b)"

definition fl_gt :: "pyfloat \<Rightarrow> pyfloat \<Rightarrow> bool" where
  "fl_gt a b = fl_lt b a"

text \<open>
  \<open>a / b\<close> on float columns and on numpy's float scalars: a zero divisor gives
  an infinity with the sign of the numerator, or NaN for \<open>0 / 0\<close>, and nothing
  is raised; a quotient of finite values with a nonzero divisor is rounded.
\<close>

fun fl_div :: "rounding \<Rightarrow> pyfloat \<Rightarrow> pyfloat \<Rightarrow> pyfloat" where
  "fl_div rnd (Fin a) (Fin b) =
     (if b = 0 then (if a = 0 then NaN else if 0 < a then PInf else NInf)
      else rnd (a / b))"
| "fl_div rnd (Fin a) PInf = Fin 0"
| "fl_div rnd (Fin a) NInf = Fin 0"
| "fl_div rnd PInf (Fin b) = (if b < 0 then NInf else PInf)"
| "fl_div rnd NInf (Fin b) = (if b < 0 then PInf else NInf)"
| "fl_div rnd _ _ = NaN"

text \<open>
  A cell of a table is a string or a number; a missing value (\<open>NaN\<close>, \<open>None\<close>)
  is the number NaN, which is what \<open>fillna\<close> looks for.
\<close>

datatype cell = Str string | Num pyfloat

fun is_str :: "cell \<Rightarrow> bool" where
  "is_str (Str s) = True"
| "is_str (Num x) = False"

fun str_of :: "cell \<Rightarrow> string" where
  "str_of (Str s) = s"
| "str_of (Num x) = []"

datatype error =
    KeyError | TypeError | ValueError | IndexError | ZeroDivisionError
  | UnboundLocalError | SystemExit | IOError

text \<open>Comparing a cell with a number: a string on the left raises TypeError.\<close>

fun cell_lt :: "cell \<Rightarrow> pyfloat \<Rightarrow> error + bool" where
  "cell_lt (Num a) b = Inr (fl_lt a b)"
| "cell_lt (Str s) b = Inl TypeError"

fun cell_ge :: "cell \<Rightarrow> pyfloat \<Rightarrow> error + bool" where
  "cell_ge (Num a) b = Inr (fl_ge a b)"
| "cell_ge (Str s) b = Inl TypeError"

text \<open>
  \<open>sub in s\<close> on strings: \<open>sub\<close> occurs in \<open>s\<close> as a contiguous run.
\<close>

fun str_in :: "string \<Rightarrow> string \<Rightarrow> bool" where
  "str_in sub [] = (sub = [])"
| "str_in sub (c # cs) = (prefix sub (c # cs) \<or> str_in sub cs)"

text \<open>
  A dictionary in insertion order is an association list; \<open>d[k]\<close> raises KeyError
  on a missing key. A row handed to a per-row function is a pandas Series indexed
  by the column labels: the labels paired with the cells.
\<close>

definition dict_get :: "('k \<times> 'v) list \<Rightarrow> 'k \<Rightarrow> error + 'v" where
  "dict_get d k = (case map_of d k of None \<Rightarrow> Inl KeyError | Some v \<Rightarrow> Inr v)"

type_synonym series = "(string \<times> cell) list"

section \<open>Tables\<close>

text \<open>
  A DataFrame: the column labels and the rows, each row holding one cell per
  column. Column labels are looked up by their first occurrence.
\<close>

record dataframe =
  columns :: "string list"
  rows :: "cell list list"

definition wf_df :: "dataframe \<Rightarrow> bool" where
  "wf_df t = list_all (\<lambda>r. length r = length (columns t)) (rows t)"

fun index_of :: "'a \<Rightarrow> 'a list \<Rightarrow> nat option" where
  "index_of x [] = None"
| "index_of x (y # ys) = (if x = y then Some 0 else map_option Suc (index_of x ys))"

definition cell_at :: "cell list \<Rightarrow> nat \<Rightarrow> cell" where
  "cell_at r i = (if i < length r then r ! i else Num NaN)"

text \<open>\<open>df[name]\<close>: the column as a list of cells, KeyError when there is none.\<close>

definition df_col :: "dataframe \<Rightarrow> string \<Rightarrow> error + cell list" where
  "df_col t name =
     (case index_of name (columns t) of
        None \<Rightarrow> Inl KeyError
      | Some i \<Rightarrow> Inr (map (\<lambda>r. cell_at r i) (rows t)))"

text \<open>
  \<open>df.assign(name=vals)\<close> and \<open>df[name] = vals\<close>: an existing column is
  overwritten in place, a new one is appended on the right.
\<close>

definition df_assign :: "dataframe \<Rightarrow> string \<Rightarrow> cell list \<Rightarrow> dataframe" where
  "df_assign t name vals =
     (case index_of name (columns t) of
        Some i \<Rightarrow> t\<lparr>rows := map (\<lambda>(r, v). r[i := v]) (zip (rows t) vals)\<rparr>
      | None \<Rightarrow> t\<lparr>columns := columns t @ [name],
                    rows := map (\<lambda>(r, v). r @ [v]) (zip (rows t) vals)\<rparr>)"

text \<open>\<open>df.fillna(0)\<close>: every missing cell of the whole table becomes 0.\<close>

definition fill0 :: "cell \<Rightarrow> cell" where
  "fill0 c = (if c = Num NaN then Num (Fin 0) else c)"

definition fillna0 :: "dataframe \<Rightarrow> dataframe" where
  "fillna0 t = t\<lparr>rows := map (map fill0) (rows t)\<rparr>"

definition row_series :: "dataframe \<Rightarrow> cell list \<Rightarrow> series" where
  "row_series t r = zip (columns t) r"

text \<open>Element-wise division of two columns; a string cell raises TypeError.\<close>

fun cell_div :: "rounding \<Rightarrow> cell \<Rightarrow> cell \<Rightarrow> error + cell" where
  "cell_div rnd (Num a) (Num b) = Inr (Num (fl_div rnd a b))"
| "cell_div rnd _ _ = Inl TypeError"

fun map_err :: "('a \<Rightarrow> error + 'b) \<Rightarrow> 'a list \<Rightarrow> error + 'b list" where
  "map_err f [] = Inr []"
| "map_err f (x # xs) =
     (case f x of
        Inl e \<Rightarrow> Inl e
      | Inr y \<Rightarrow> (case map_err f xs of Inl e \<Rightarrow> Inl e | Inr ys \<Rightarrow> Inr (y # ys)))"

definition series_div :: "rounding \<Rightarrow> cell list \<Rightarrow> cell list \<Rightarrow> error + cell list" where
  "series_div rnd xs ys = map_err (\<lambda>(x, y). cell_div rnd x y) (zip xs ys)"

section \<open>DataAnalyzer\<close>

record analyzer =
  df :: dataframe
  machine_type :: string
  reporter_dict :: "(string \<times> string) list"
  reporter_list :: "string list"
  ic :: string
  max_dRn :: "(string \<times> pyfloat) list"
  cq_cutoff :: pyfloat
  pos_cutoff :: pyfloat
  dRn_percent_cutoff :: pyfloat
  min_drm_percent :: pyfloat
  max_drm_percent :: pyfloat

subsection \<open>hiv_result, hiv_analysis\<close>

text \<open>
  \<open>or\<close> evaluates its right operand only when the left one is false, so the
  internal control's quantity is read only for a percentage not below the minimum.
\<close>

definition hiv_result :: "analyzer \<Rightarrow> series \<Rightarrow> string \<Rightarrow> error + string" where
  "hiv_result self row col =
     (case dict_get row col of Inl e \<Rightarrow> Inl e | Inr p \<Rightarrow>
      case cell_lt p (min_drm_percent self) of Inl e \<Rightarrow> Inl e
      | Inr True \<Rightarrow> Inr ''Negative''
      | Inr False \<Rightarrow>
     (case dict_get row (ic self @ '' Quantity'') of Inl e \<Rightarrow> Inl e | Inr q \<Rightarrow>
      case cell_lt q (Fin 50) of Inl e \<Rightarrow> Inl e
      | Inr True \<Rightarrow> Inr ''Negative''
      | Inr False \<Rightarrow>
     (case cell_ge p (max_drm_percent self) of Inl e \<Rightarrow> Inl e
      | Inr True \<Rightarrow> Inr ''Positive''
      | Inr False \<Rightarrow> Inr ''Indeterminate'')))"

text \<open>
  One pass of the loop of \<open>hiv_analysis\<close> for reporter \<open>fluor\<close>: the percentage
  column is the quotient of two whole columns, the table is then passed through
  \<open>fillna(0)\<close>, and the call column is \<open>hiv_result\<close> applied to every row.
\<close>

definition hiv_analysis_step :: "rounding \<Rightarrow> analyzer \<Rightarrow> string \<Rightarrow> error + analyzer" where
  "hiv_analysis_step rnd self fluor =
     (case dict_get (reporter_dict self) fluor of Inl e \<Rightarrow> Inl e | Inr name \<Rightarrow>
      case df_col (df self) (fluor @ '' Quantity'') of Inl e \<Rightarrow> Inl e | Inr num \<Rightarrow>
      case df_col (df self) (ic self @ '' Quantity'') of Inl e \<Rightarrow> Inl e | Inr den \<Rightarrow>
      case series_div rnd num den of Inl e \<Rightarrow> Inl e | Inr pct \<Rightarrow>
      let t1 = fillna0 (df_assign (df self) (name @ '' DRM Percentage'') pct) in
      case map_err (\<lambda>r. hiv_result self (row_series t1 r) (name @ '' DRM Percentage''))
             (rows t1) of
        Inl e \<Rightarrow> Inl e
      | Inr calls \<Rightarrow>
          Inr (self\<lparr>df := df_assign t1 (name @ '' Call'') (map Str calls)\<rparr>))"

fun hiv_analysis_loop :: "rounding \<Rightarrow> analyzer \<Rightarrow> string list \<Rightarrow> error + analyzer" where
  "hiv_analysis_loop rnd self [] = Inr self"
| "hiv_analysis_loop rnd self (fluor # fluors) =
     (case hiv_analysis_step rnd self fluor of
        Inl e \<Rightarrow> Inl e
      | Inr self' \<Rightarrow> hiv_analysis_loop rnd self' fluors)"

text \<open>The loop runs over \<open>reporter_list[1:]\<close>.\<close>

definition hiv_analysis :: "rounding \<Rightarrow> analyzer \<Rightarrow> error + analyzer" where
  "hiv_analysis rnd self = hiv_analysis_loop rnd self (tl (reporter_list self))"

subsection \<open>vhf_result\<close>

text \<open>
  The row handed to \<open>vhf_result\<close> is a Series with a dtype: \<open>float64\<close> when
  every column of the table is numeric, \<open>object\<close> otherwise (a table with a
  text column, such as sample names or well positions). The dtype decides the
  division of the QuantStudio branch, whose divisor \<open>max_dRn[...]\<close> is a Python
  float: a value read from an \<open>object\<close> row is a Python float too, and Python's
  division by zero raises ZeroDivisionError; a value read from a \<open>float64\<close> row
  is a numpy scalar, whose division by zero returns an infinity or NaN.
\<close>

datatype dtype = Float64 | Object

fun py_div :: "rounding \<Rightarrow> dtype \<Rightarrow> cell \<Rightarrow> pyfloat \<Rightarrow> error + pyfloat" where
  "py_div rnd dt (Str s) m = Inl TypeError"
| "py_div rnd dt (Num d) m =
     (if dt = Object \<and> m = Fin 0 then Inl ZeroDivisionError else Inr (fl_div rnd d m))"

text \<open>
  One pass of the loop over \<open>range(1, len(reporter_list))\<close>: the value appended
  to \<open>cq_vals\<close> for reporter \<open>r\<close>. \<open>and\<close> reads the delta-Rn only when the
  Cq is below the cutoff.
\<close>

definition vhf_append ::
  "rounding \<Rightarrow> dtype \<Rightarrow> analyzer \<Rightarrow> series \<Rightarrow> string \<Rightarrow> error + pyfloat" where
  "vhf_append rnd dt self row r =
     (if machine_type self = ''QuantStudio 3'' \<or> machine_type self = ''QuantStudio 5'' then
        (case dict_get row (r @ '' CT'') of
           Inl e \<Rightarrow> Inl e
         | Inr (Str s) \<Rightarrow> Inl TypeError
         | Inr (Num ct) \<Rightarrow>
             if fl_lt ct (pos_cutoff self) then
               (case dict_get row (r @ '' dRn'') of Inl e \<Rightarrow> Inl e | Inr d \<Rightarrow>
               (case dict_get (max_dRn self) r of Inl e \<Rightarrow> Inl e | Inr m \<Rightarrow>
               (case py_div rnd dt d m of Inl e \<Rightarrow> Inl e | Inr q \<Rightarrow>
                  if fl_gt q (dRn_percent_cutoff self) then Inr ct else Inr (Fin 99))))
             else Inr (Fin 99))
      else
        (case dict_get row (r @ '' CT'') of
           Inl e \<Rightarrow> Inl e
         | Inr (Str s) \<Rightarrow> Inl TypeError
         | Inr (Num ct) \<Rightarrow>
             if fl_lt ct (pos_cutoff self) then Inr ct else Inr (Fin 99)))"

text \<open>
  \<open>min(cq_vals)\<close> keeps the first of equal values: a later item replaces the
  current minimum only when it is strictly smaller. \<open>cq_vals.index(v)\<close> is the
  first position holding \<open>v\<close>.
\<close>

fun py_min :: "pyfloat list \<Rightarrow> pyfloat" where
  "py_min [] = NaN"
| "py_min (x # xs) = foldl (\<lambda>m y. if fl_lt y m then y else m) x xs"

definition vhf_cq_vals ::
  "rounding \<Rightarrow> dtype \<Rightarrow> analyzer \<Rightarrow> series \<Rightarrow> error + pyfloat list" where
  "vhf_cq_vals rnd dt self row =
     (case map_err (vhf_append rnd dt self row) (tl (reporter_list self)) of
        Inl e \<Rightarrow> Inl e
      | Inr vs \<Rightarrow> Inr (Fin 98 # vs))"

definition vhf_result ::
  "rounding \<Rightarrow> dtype \<Rightarrow> analyzer \<Rightarrow> series \<Rightarrow> error + string" where
  "vhf_result rnd dt self row =
     (case vhf_cq_vals rnd dt self row of
        Inl e \<Rightarrow> Inl e
      | Inr cq_vals \<Rightarrow>
         (case index_of (py_min cq_vals) cq_vals of
            None \<Rightarrow> Inl ValueError
          | Some fluor_min \<Rightarrow>
              if fluor_min \<noteq> 0 then
                (case dict_get (reporter_dict self) (reporter_list self ! fluor_min) of
                   Inl e \<Rightarrow> Inl e
                 | Inr name \<Rightarrow> Inr (name @ '' Positive''))
              else
                (case dict_get row (ic self @ '' CT'') of
                   Inl e \<Rightarrow> Inl e
                 | Inr (Str s) \<Rightarrow> Inl TypeError
                 | Inr (Num c) \<Rightarrow>
                     if fl_lt c (pos_cutoff self) then Inr ''Negative''
                     else Inr ''Invalid Result'')))"

section \<open>DataImporter: the extractors\<close>

text \<open>
  The extractors read the rows a \<open>csv.reader\<close> yields: each line is the list of
  its fields, and an empty line is the empty list. A character of the model is a
  code point below 256.
\<close>

definition is_space :: "char \<Rightarrow> bool" where
  "is_space c =
     (of_char c \<in> {9, 10, 11, 12, 13, 28, 29, 30, 31, 32, 133, 160 :: nat})"

text \<open>\<open>not field.strip()\<close> holds when the field has whitespace only.\<close>

definition isblank :: "string list \<Rightarrow> bool" where
  "isblank row = list_all (\<lambda>field. list_all is_space field) row"

text \<open>
  \<open>pd.DataFrame(data, columns=header)\<close> on a list of rows: short rows are
  padded with missing values, and a longest row whose length is not the number of
  labels raises ValueError.
\<close>

definition pad_row :: "nat \<Rightarrow> string list \<Rightarrow> cell list" where
  "pad_row n r = map Str r @ replicate (n - length r) (Num NaN)"

definition DataFrame :: "string list list \<Rightarrow> string list \<Rightarrow> error + dataframe" where
  "DataFrame data header =
     (if data = [] then Inr \<lparr>columns = header, rows = []\<rparr>
      else if fold max (map length data) 0 \<noteq> length header then Inl ValueError
      else Inr \<lparr>columns = header, rows = map (pad_row (length header)) data\<rparr>)"

text \<open>
  The loop of \<open>csv_to_df\<close>; \<open>results_flag in line\<close> asks for a field equal to
  the flag. The three checks run in the order of the source.
\<close>

fun csv_to_df_loop ::
  "string \<Rightarrow> string list list \<Rightarrow> bool \<Rightarrow> string list list \<Rightarrow> string list list" where
  "csv_to_df_loop results_flag [] data_bool data_cleaned = data_cleaned"
| "csv_to_df_loop results_flag (line # lines) data_bool data_cleaned =
     (let b1 = (if isblank line then False else data_bool);
          dc = (if b1 then data_cleaned @ [line] else data_cleaned);
          b2 = (if results_flag \<in> set line then True else b1)
      in csv_to_df_loop results_flag lines b2 dc)"

text \<open>\<open>data_cleaned.pop(0)\<close> raises IndexError on an empty list.\<close>

definition csv_to_df :: "string list list \<Rightarrow> string \<Rightarrow> error + dataframe" where
  "csv_to_df results_reader results_flag =
     (case csv_to_df_loop results_flag results_reader False [] of
        [] \<Rightarrow> Inl IndexError
      | header # data_cleaned \<Rightarrow> DataFrame data_cleaned header)"

text \<open>
  \<open>str(line)\<close> is the text Python prints for a list of strings: each field in
  quotes (double quotes when the field has a single quote and no double quote),
  backslash, the quote and control characters escaped.
\<close>

definition hex_digit :: "nat \<Rightarrow> char" where
  "hex_digit n = ''0123456789abcdef'' ! (n mod 16)"

definition repr_char :: "char \<Rightarrow> char \<Rightarrow> string" where
  "repr_char q c =
     (let n = (of_char c :: nat) in
      if c = q \<or> n = 92 then [CHR 0x5C, c]
      else if n = 9 then [CHR 0x5C, CHR ''t'']
      else if n = 10 then [CHR 0x5C, CHR ''n'']
      else if n = 13 then [CHR 0x5C, CHR ''r'']
      else if n < 32 \<or> (127 \<le> n \<and> n \<le> 160) \<or> n = 173
        then [CHR 0x5C, CHR ''x'', hex_digit (n div 16), hex_digit n]
      else [c])"

definition py_repr :: "string \<Rightarrow> string" where
  "py_repr s =
     (let q = (if CHR 0x27 \<in> set s \<and> CHR 0x22 \<notin> set s then CHR 0x22 else CHR 0x27)
      in [q] @ concat (map (repr_char q) s) @ [q])"

fun join_comma :: "string list \<Rightarrow> string" where
  "join_comma [] = []"
| "join_comma [x] = x"
| "join_comma (x # y # ys) = x @ '', '' @ join_comma (y # ys)"

definition py_str :: "string list \<Rightarrow> string" where
  "py_str line = ''['' @ join_comma (map py_repr line) @ '']''"

text \<open>
  \<open>if flag\<close> and \<open>if not stop\<close> test Python truth: \<open>None\<close> and the empty
  string are false.
\<close>

fun truthy :: "string option \<Rightarrow> bool" where
  "truthy None = False"
| "truthy (Some s) = (s \<noteq> [])"

text \<open>The checks of \<open>extract_header\<close> for one line, in the order of the source.\<close>

definition header_stop :: "string option \<Rightarrow> string list \<Rightarrow> bool \<Rightarrow> bool" where
  "header_stop stop line headbool =
     (if \<not> truthy stop then (if isblank line then False else headbool)
      else (if str_in (the stop) (py_str line) then False else headbool))"

definition header_flag :: "string option \<Rightarrow> string list \<Rightarrow> bool \<Rightarrow> bool" where
  "header_flag flag line headbool =
     (if truthy flag then (if str_in (the flag) (py_str line) then True else headbool)
      else headbool)"

fun extract_header_loop ::
  "string option \<Rightarrow> string option \<Rightarrow> string list list \<Rightarrow> bool \<Rightarrow> string list list
     \<Rightarrow> string list list" where
  "extract_header_loop flag stop [] headbool head = head"
| "extract_header_loop flag stop (line # lines) headbool head =
     (let b1 = header_stop stop line headbool;
          b2 = header_flag flag line b1;
          h = (if b2 then head @ [line] else head)
      in extract_header_loop flag stop lines b2 h)"

definition extract_header ::
  "string list list \<Rightarrow> string option \<Rightarrow> string option \<Rightarrow> string list list" where
  "extract_header reader flag stop =
     extract_header_loop flag stop reader (if truthy flag then False else True) []"

section \<open>DataImporter: joining the per-reporter tables\<close>

text \<open>
  \<open>df.loc[:, names]\<close>: the named columns in the order asked for (every column
  carrying the label, when a label is repeated); a label the table lacks raises
  KeyError.
\<close>

definition positions :: "string list \<Rightarrow> string \<Rightarrow> nat list" where
  "positions cols name = filter (\<lambda>i. cols ! i = name) [0..<length cols]"

definition loc_cols :: "dataframe \<Rightarrow> string list \<Rightarrow> error + dataframe" where
  "loc_cols t names =
     (if list_ex (\<lambda>n. n \<notin> set (columns t)) names then Inl KeyError
      else
        (let idxs = concat (map (positions (columns t)) names)
         in Inr \<lparr>columns = map (\<lambda>i. columns t ! i) idxs,
                 rows = map (\<lambda>r. map (cell_at r) idxs) (rows t)\<rparr>))"

text \<open>\<open>df.rename(columns=d)\<close>: labels found in \<open>d\<close> are replaced, others kept.\<close>

definition rename_cols :: "dataframe \<Rightarrow> (string \<times> string) list \<Rightarrow> dataframe" where
  "rename_cols t d =
     t\<lparr>columns := map (\<lambda>c. case map_of d c of None \<Rightarrow> c | Some c' \<Rightarrow> c') (columns t)\<rparr>"

text \<open>
  \<open>pd.merge(left, right, on='Well')\<close> with the default \<open>how='inner'\<close>: one
  output row for every pair of a left row and a right row with the same well key,
  in the order of the left rows; a left row with no partner on the right, and a
  right row with no partner on the left, produce nothing. The key column stays
  where the left table has it, the other columns of the right table follow, and
  a label both tables carry outside the key gets the suffixes \<open>_x\<close> and \<open>_y\<close>.
  Keys are compared as cells.

  Before joining, pandas compares the types of the two key columns and raises
  ValueError when one is a numeric column and the other a column of text. The
  columns are typed as pandas' readers type them: a column is numeric when it
  has cells and all of them are numbers; a column with a string among its cells
  is an \<open>object\<close> column, which pandas takes for text unless it holds a whole
  number (an integer object) beside its strings. A column without cells keeps
  in pandas the type it was read with, which its cells no longer show: it is
  taken here to have the type of the column it is joined with, as it has when
  both columns were read with the same type.
\<close>

fun is_whole :: "cell \<Rightarrow> bool" where
  "is_whole (Num (Fin x)) = (of_int \<lfloor>x\<rfloor> = x)"
| "is_whole _ = False"

definition numeric_key :: "cell list \<Rightarrow> bool" where
  "numeric_key cs = (cs \<noteq> [] \<and> \<not> list_ex is_str cs)"

definition text_key :: "cell list \<Rightarrow> bool" where
  "text_key cs = (list_ex is_str cs \<and> \<not> list_ex is_whole cs)"

definition keys_refused :: "cell list \<Rightarrow> cell list \<Rightarrow> bool" where
  "keys_refused lk rk = ((numeric_key lk \<and> text_key rk) \<or> (text_key lk \<and> numeric_key rk))"

definition drop_at :: "nat \<Rightarrow> 'a list \<Rightarrow> 'a list" where
  "drop_at j xs = take j xs @ drop (Suc j) xs"

definition merge_columns :: "string list \<Rightarrow> string list \<Rightarrow> nat \<Rightarrow> string list" where
  "merge_columns lcols rcols j =
     (let rrest = drop_at j rcols;
          both = (\<lambda>c. c \<noteq> ''Well'' \<and> c \<in> set lcols \<and> c \<in> set rrest)
      in map (\<lambda>c. if both c then c @ ''_x'' else c) lcols
         @ map (\<lambda>c. if both c then c @ ''_y'' else c) rrest)"

definition merge_rows :: "cell list list \<Rightarrow> nat \<Rightarrow> cell list list \<Rightarrow> nat \<Rightarrow> cell list list" where
  "merge_rows lrows i rrows j =
     concat (map (\<lambda>lr. map (\<lambda>rr. lr @ drop_at j rr)
                        (filter (\<lambda>rr. cell_at rr j = cell_at lr i) rrows)) lrows)"

definition pd_merge :: "dataframe \<Rightarrow> dataframe \<Rightarrow> error + dataframe" where
  "pd_merge left right =
     (case index_of ''Well'' (columns left) of
        None \<Rightarrow> Inl KeyError
      | Some i \<Rightarrow>
         (case index_of ''Well'' (columns right) of
            None \<Rightarrow> Inl KeyError
          | Some j \<Rightarrow>
              if keys_refused (map (\<lambda>r. cell_at r i) (rows left))
                   (map (\<lambda>r. cell_at r j) (rows right))
              then Inl ValueError
              else Inr \<lparr>columns = merge_columns (columns left) (columns right) j,
                        rows = merge_rows (rows left) i (rows right) j\<rparr>))"

text \<open>The well keys of a table, in row order (empty when it has no such column).\<close>

definition wells :: "dataframe \<Rightarrow> cell list" where
  "wells t = (case df_col t ''Well'' of Inl e \<Rightarrow> [] | Inr ws \<Rightarrow> ws)"

subsection \<open>summarize\<close>

text \<open>
  The columns taken from one reporter's table; \<open>columns.pop(1)\<close> removes the
  sample name on every pass but the first.
\<close>

definition summarize_columns :: "string \<Rightarrow> string \<Rightarrow> string \<Rightarrow> bool \<Rightarrow> string list" where
  "summarize_columns mtype division fluor first_loop =
     (let c0 = [''Well'', ''Sample Name'', fluor @ '' CT''];
          c1 = (if str_in ''QuantStudio'' mtype
                then c0 @ [fluor @ '' Cq Conf'', fluor @ '' dRn''] else c0);
          c2 = (if division = ''hiv'' then c1 @ [fluor @ '' Quantity''] else c1)
      in if \<not> first_loop then drop_at 1 c2 else c2)"

text \<open>
  The loop of \<open>summarize\<close> over \<open>df_dict\<close>; the accumulator is \<open>None\<close> while
  \<open>first_loop\<close> holds. A failed column selection on the first pass is caught and
  ends the program; on a later pass it is not caught. Returning from an empty
  \<open>df_dict\<close> reads a variable never assigned.
\<close>

fun summarize_loop ::
  "string \<Rightarrow> string \<Rightarrow> (string \<times> dataframe) list \<Rightarrow> dataframe option \<Rightarrow> error + dataframe" where
  "summarize_loop mtype division [] None = Inl UnboundLocalError"
| "summarize_loop mtype division [] (Some summary_table) = Inr summary_table"
| "summarize_loop mtype division ((fluor, t) # rest) None =
     (case loc_cols t (summarize_columns mtype division fluor True) of
        Inl e \<Rightarrow> Inl SystemExit
      | Inr s \<Rightarrow> summarize_loop mtype division rest (Some s))"
| "summarize_loop mtype division ((fluor, t) # rest) (Some summary_table) =
     (case loc_cols t (summarize_columns mtype division fluor False) of
        Inl e \<Rightarrow> Inl e
      | Inr part \<Rightarrow>
         (case pd_merge summary_table part of
            Inl e \<Rightarrow> Inl e
          | Inr s \<Rightarrow> summarize_loop mtype division rest (Some s)))"

definition summarize :: "string \<Rightarrow> string \<Rightarrow> (string \<times> dataframe) list \<Rightarrow> error + dataframe" where
  "summarize mtype division df_dict = summarize_loop mtype division df_dict None"

subsection \<open>parse_rgq\<close>

text \<open>
  The files the parser reads: \<open>read_csv\<close> is the table \<open>pd.read_csv\<close> gives for
  a path (or its failure), \<open>open_reader\<close> the rows of the same file for the header.
  The selected paths are those the file dialog returned.
\<close>

record files =
  read_csv :: "string \<Rightarrow> error + dataframe"
  open_reader :: "string \<Rightarrow> string list list"

record rgq_state =
  st_first_loop :: bool
  st_results :: "dataframe option"
  st_head :: "string list list"
  used_filepaths :: "string list"

text \<open>\<open>t[name] = t[name].fillna(v)\<close>.\<close>

definition fillna_col :: "dataframe \<Rightarrow> string \<Rightarrow> pyfloat \<Rightarrow> error + dataframe" where
  "fillna_col t name v =
     (case df_col t name of
        Inl e \<Rightarrow> Inl e
      | Inr cs \<Rightarrow> Inr (df_assign t name (map (\<lambda>c. if c = Num NaN then Num v else c) cs)))"

definition rgq_rename :: "string \<Rightarrow> (string \<times> string) list" where
  "rgq_rename fluor =
     [(''No.'', ''Well''), (''Name'', ''Sample Name''), (''Ct'', fluor @ '' CT''),
      (''Ct Comment'', ''Comments''), (''Given Conc (copies/reaction)'', ''Copies'')]"

text \<open>
  The filename test of the inner loop, and the inner loop itself: it runs over
  the reporters for one file, and \<open>results_table\<close> is renamed anew at every match.
\<close>

definition file_matches :: "string \<Rightarrow> string \<times> string \<Rightarrow> bool" where
  "file_matches filepath r =
     (str_in (fst r @ ''.csv'') filepath \<or> str_in (snd r @ ''.csv'') filepath)"

fun rgq_fluors ::
  "files \<Rightarrow> string \<Rightarrow> (string \<times> string) list \<Rightarrow> dataframe \<Rightarrow> rgq_state \<Rightarrow> error + rgq_state" where
  "rgq_fluors fs filepath [] results_table st = Inr st"
| "rgq_fluors fs filepath (r # rest) results_table st =
     (if file_matches filepath r then
        (let used = used_filepaths st @ [filepath];
             rt = rename_cols results_table (rgq_rename (fst r))
         in if st_first_loop st then
              (case loc_cols rt [''Well'', ''Sample Name'', ''Copies'', ''Comments'',
                                 fst r @ '' CT''] of
                 Inl e \<Rightarrow> Inl e
               | Inr t \<Rightarrow>
                   rgq_fluors fs filepath rest rt
                     (st\<lparr>st_first_loop := False, st_results := Some t,
                         st_head := extract_header (open_reader fs filepath) None
                                      (Some ''Quantitative''),
                         used_filepaths := used\<rparr>))
            else
              (case st_results st of
                 None \<Rightarrow> Inl TypeError
               | Some s \<Rightarrow>
                  (case loc_cols rt [''Well'', fst r @ '' CT''] of
                     Inl e \<Rightarrow> Inl e
                   | Inr part \<Rightarrow>
                      (case pd_merge s part of
                         Inl e \<Rightarrow> Inl e
                       | Inr m \<Rightarrow>
                           rgq_fluors fs filepath rest rt
                             (st\<lparr>st_results := Some m, used_filepaths := used\<rparr>)))))
      else rgq_fluors fs filepath rest results_table st)"

text \<open>The loop over the selected files; a table without a \<open>Ct\<close> column ends the program.\<close>

fun rgq_files ::
  "files \<Rightarrow> pyfloat \<Rightarrow> (string \<times> string) list \<Rightarrow> string list \<Rightarrow> rgq_state \<Rightarrow> error + rgq_state" where
  "rgq_files fs cutoff rdict [] st = Inr st"
| "rgq_files fs cutoff rdict (filepath # rest) st =
     (case read_csv fs filepath of
        Inl e \<Rightarrow> Inl e
      | Inr t0 \<Rightarrow>
         (case fillna_col t0 ''Ct'' cutoff of
            Inl e \<Rightarrow> Inl SystemExit
          | Inr results_table \<Rightarrow>
             (case rgq_fluors fs filepath rdict results_table st of
                Inl e \<Rightarrow> Inl e
              | Inr st' \<Rightarrow> rgq_files fs cutoff rdict rest st')))"

text \<open>
  \<open>parse_rgq\<close> from the selected paths on: after the loop the sorted list of the
  selected paths must be the sorted list of the paths used.
\<close>

definition parse_rgq ::
  "files \<Rightarrow> pyfloat \<Rightarrow> (string \<times> string) list \<Rightarrow> string list \<Rightarrow> error + rgq_state" where
  "parse_rgq fs cutoff rdict results_filepaths =
     (case rgq_files fs cutoff rdict results_filepaths
             \<lparr>st_first_loop = True, st_results = None, st_head = [], used_filepaths = []\<rparr> of
        Inl e \<Rightarrow> Inl e
      | Inr st \<Rightarrow>
          if sort results_filepaths \<noteq> sort (used_filepaths st) then Inl SystemExit
          else Inr st)"

subsection \<open>parse_qs: the split by reporter\<close>

text \<open>
  \<open>parse_qs\<close> is modelled from the point where the results table has been read
  and its numeric columns coerced: the check of the reporter labels, the loop that
  splits the table by reporter and records the largest delta-Rn, and the call of
  \<open>summarize\<close>.

  The check sorts the distinct reporter labels of the file: labels that mix
  strings and numbers cannot be sorted, and numbers alone never equal the
  configured names.
\<close>

definition reporter_check :: "dataframe \<Rightarrow> (string \<times> string) list \<Rightarrow> error + unit" where
  "reporter_check results_table rdict =
     (case df_col results_table ''Reporter'' of
        Inl e \<Rightarrow> Inl e
      | Inr cs \<Rightarrow>
          if list_ex is_str cs \<and> list_ex (\<lambda>c. \<not> is_str c) cs then Inl TypeError
          else if list_ex (\<lambda>c. \<not> is_str c) cs then Inl SystemExit
          else if sort (remdups (map str_of cs)) \<noteq> sort (map fst rdict) then Inl SystemExit
          else Inr ())"

text \<open>\<open>results_table.loc[results_table['Reporter'] == fluor]\<close>.\<close>

definition by_reporter :: "dataframe \<Rightarrow> string \<Rightarrow> error + dataframe" where
  "by_reporter t fluor =
     (case index_of ''Reporter'' (columns t) of
        None \<Rightarrow> Inl KeyError
      | Some i \<Rightarrow> Inr (t\<lparr>rows := filter (\<lambda>r. cell_at r i = Str fluor) (rows t)\<rparr>))"

definition qs_rename :: "string \<Rightarrow> (string \<times> string) list" where
  "qs_rename fluor =
     [(''Well'', ''Well No.''), (''Well Position'', ''Well''), (''CT'', fluor @ '' CT''),
      (''Cq Conf'', fluor @ '' Cq Conf''), (''Delta Rn (last cycle)'', fluor @ '' dRn'')]"

text \<open>
  \<open>t.loc[t['Baseline End'] >= baseline_end, [name]]\<close>: the rows whose baseline
  end is at least the threshold (a missing baseline end compares false), and of
  them the one named column.
\<close>

definition get_max :: "dataframe \<Rightarrow> pyfloat \<Rightarrow> string \<Rightarrow> error + dataframe" where
  "get_max t baseline_end name =
     (case df_col t ''Baseline End'' of
        Inl e \<Rightarrow> Inl e
      | Inr bs \<Rightarrow>
         (case map_err (\<lambda>b. cell_ge b baseline_end) bs of
            Inl e \<Rightarrow> Inl e
          | Inr keep \<Rightarrow>
              loc_cols (t\<lparr>rows := map fst (filter snd (zip (rows t) keep))\<rparr>) [name]))"

text \<open>
  \<open>float(series.max())\<close>: the largest value that is not missing, NaN when there
  is none. A column label carried twice, or a string among the values, has no
  float.
\<close>

fun num_of :: "cell \<Rightarrow> error + pyfloat" where
  "num_of (Num x) = Inr x"
| "num_of (Str s) = Inl TypeError"

definition fl_max :: "pyfloat \<Rightarrow> pyfloat \<Rightarrow> pyfloat" where
  "fl_max a b = (if fl_lt a b then b else a)"

definition series_max :: "pyfloat list \<Rightarrow> pyfloat" where
  "series_max xs =
     (case filter (\<lambda>x. x \<noteq> NaN) xs of [] \<Rightarrow> NaN | y # ys \<Rightarrow> foldl fl_max y ys)"

definition float_max :: "dataframe \<Rightarrow> string \<Rightarrow> error + pyfloat" where
  "float_max t name =
     (if length (columns t) \<noteq> 1 then Inl TypeError
      else
        (case df_col t name of
           Inl e \<Rightarrow> Inl e
         | Inr cs \<Rightarrow>
            (case map_err num_of cs of
               Inl e \<Rightarrow> Inl e
             | Inr xs \<Rightarrow> Inr (series_max xs))))"

text \<open>
  One pass of the loop over \<open>reporter_dict\<close>: the reporter's partial table and
  its entry of \<open>max_dRn_dict\<close>.
\<close>

definition parse_qs_fluor ::
  "(string \<times> string) list \<Rightarrow> string \<Rightarrow> dataframe \<Rightarrow> string \<Rightarrow> error + dataframe \<times> pyfloat" where
  "parse_qs_fluor rdict division results_table fluor =
     (case by_reporter results_table fluor of
        Inl e \<Rightarrow> Inl e
      | Inr t0 \<Rightarrow>
         (let t1 = rename_cols t0 (qs_rename fluor);
              t2 = (if division = ''hiv''
                    then rename_cols t1 [(''Quantity'', fluor @ '' Quantity'')] else t1)
          in case dict_get rdict fluor of
               Inl e \<Rightarrow> Inl e
             | Inr name \<Rightarrow>
                (let baseline_end = (if name = ''Internal Control'' then Fin 5 else Fin 10)
                 in case get_max t2 baseline_end (fluor @ '' dRn'') of
                      Inl e \<Rightarrow> Inl e
                    | Inr g \<Rightarrow>
                       (case float_max g (fluor @ '' dRn'') of
                          Inl e \<Rightarrow> Inl e
                        | Inr m \<Rightarrow> Inr (t2, m)))))"

fun parse_qs_loop ::
  "(string \<times> string) list \<Rightarrow> string \<Rightarrow> dataframe \<Rightarrow> string list
     \<Rightarrow> (string \<times> dataframe) list \<Rightarrow> (string \<times> pyfloat) list
     \<Rightarrow> error + (string \<times> dataframe) list \<times> (string \<times> pyfloat) list" where
  "parse_qs_loop rdict division results_table [] results_dict max_dRn_dict =
     Inr (results_dict, max_dRn_dict)"
| "parse_qs_loop rdict division results_table (fluor # fluors) results_dict max_dRn_dict =
     (case parse_qs_fluor rdict division results_table fluor of
        Inl e \<Rightarrow> Inl e
      | Inr (t, m) \<Rightarrow>
          parse_qs_loop rdict division results_table fluors
            (AList.update fluor t results_dict) (AList.update fluor m max_dRn_dict))"

definition parse_qs ::
  "string \<Rightarrow> string \<Rightarrow> (string \<times> string) list \<Rightarrow> dataframe
     \<Rightarrow> error + dataframe \<times> (string \<times> pyfloat) list" where
  "parse_qs mtype division rdict results_table =
     (case reporter_check results_table rdict of
        Inl e \<Rightarrow> Inl e
      | Inr u \<Rightarrow>
         (case parse_qs_loop rdict division results_table (map fst rdict) [] [] of
            Inl e \<Rightarrow> Inl e
          | Inr (results_dict, max_dRn_dict) \<Rightarrow>
             (case summarize mtype division results_dict of
                Inl e \<Rightarrow> Inl e
              | Inr summary \<Rightarrow> Inr (summary, max_dRn_dict))))"

section \<open>The claims' vocabulary\<close>

text \<open>
  The words of the specification, written as functions of the same data. A
  reporter's Cq and delta-Rn fraction are read from the row; a reporter is called
  positive when its Cq is strictly below the positivity cutoff and, on a
  QuantStudio, its fraction of the plate's largest delta-Rn, as the float
  division \<open>rnd\<close> gives it, is above the configured fraction. Its candidate
  value is its Cq when it is called positive and 99 otherwise.
\<close>

definition is_quantstudio :: "analyzer \<Rightarrow> bool" where
  "is_quantstudio self = (machine_type self = ''QuantStudio 3'' \<or> machine_type self = ''QuantStudio 5'')"

definition cq_of :: "series \<Rightarrow> string \<Rightarrow> pyfloat" where
  "cq_of row r = (case map_of row (r @ '' CT'') of Some (Num c) \<Rightarrow> c | _ \<Rightarrow> NaN)"

definition dRn_fraction :: "rounding \<Rightarrow> analyzer \<Rightarrow> series \<Rightarrow> string \<Rightarrow> pyfloat" where
  "dRn_fraction rnd self row r =
     (case (map_of row (r @ '' dRn''), map_of (max_dRn self) r) of
        (Some (Num d), Some m) \<Rightarrow> fl_div rnd d m
      | _ \<Rightarrow> NaN)"

definition called_positive :: "rounding \<Rightarrow> analyzer \<Rightarrow> series \<Rightarrow> string \<Rightarrow> bool" where
  "called_positive rnd self row r =
     (fl_lt (cq_of row r) (pos_cutoff self)
      \<and> (is_quantstudio self \<longrightarrow> fl_gt (dRn_fraction rnd self row r) (dRn_percent_cutoff self)))"

definition candidate :: "rounding \<Rightarrow> analyzer \<Rightarrow> series \<Rightarrow> string \<Rightarrow> pyfloat" where
  "candidate rnd self row r = (if called_positive rnd self row r then cq_of row r else Fin 99)"

definition display_name :: "analyzer \<Rightarrow> string \<Rightarrow> string" where
  "display_name self r = (case map_of (reporter_dict self) r of Some n \<Rightarrow> n | None \<Rightarrow> [])"

text \<open>The labels of the columns \<open>hiv_analysis\<close> writes.\<close>

definition appended_names :: "analyzer \<Rightarrow> string list" where
  "appended_names self =
     concat (map (\<lambda>r. [display_name self r @ '' DRM Percentage'', display_name self r @ '' Call''])
               (tl (reporter_list self)))"

text \<open>
  The selected files whose name holds \<open>.csv\<close> straight after a configured
  reporter's channel or display name.
\<close>

definition matched_files :: "(string \<times> string) list \<Rightarrow> string list \<Rightarrow> string list" where
  "matched_files rdict paths = filter (\<lambda>p. list_ex (file_matches p) rdict) paths"

text \<open>
  What \<open>summarize\<close> needs of its tables: there is a first table, it has the
  columns taken on the first pass, and every later table has the columns taken
  on a later pass.
\<close>

fun required_columns_present :: "string \<Rightarrow> string \<Rightarrow> (string \<times> dataframe) list \<Rightarrow> bool" where
  "required_columns_present mtype division [] = False"
| "required_columns_present mtype division ((fluor, t) # rest) =
     (set (summarize_columns mtype division fluor True) \<subseteq> set (columns t)
      \<and> list_all (\<lambda>(f, u). set (summarize_columns mtype division f False) \<subseteq> set (columns u)) rest)"

text \<open>
  The entry of the largest delta-Rn as the specification words it, over the rows
  of a reporter whose baseline end exceeds the threshold, for comparison with the
  entry the code computes.
\<close>

fun exceeds :: "cell \<Rightarrow> pyfloat \<Rightarrow> bool" where
  "exceeds (Num b) threshold = fl_gt b threshold"
| "exceeds (Str s) threshold = False"

definition claimed_max_dRn :: "(string \<times> string) list \<Rightarrow> dataframe \<Rightarrow> string \<Rightarrow> pyfloat" where
  "claimed_max_dRn rdict results_table fluor =
     (let threshold = (if map_of rdict fluor = Some ''Internal Control'' then Fin 5 else Fin 10);
          col = (\<lambda>name r. case index_of name (columns results_table) of
                             None \<Rightarrow> Num NaN | Some i \<Rightarrow> cell_at r i)
      in series_max
           (concat (map (\<lambda>r. case col ''Delta Rn (last cycle)'' r of Num x \<Rightarrow> [x] | Str s \<Rightarrow> [])
              (filter (\<lambda>r. col ''Reporter'' r = Str fluor \<and> exceeds (col ''Baseline End'' r) threshold)
                 (rows results_table)))))"

section \<open>Inputs on which the code returns\<close>

text \<open>
  A row \<open>vhf_result\<close> can classify: it holds a number as the Cq of the
  internal control and of every reporter after position 0, these reporters have
  display names, and on a QuantStudio each of them has a numeric delta-Rn and an
  entry of \<open>max_dRn\<close>, which is not zero when the row is an \<open>object\<close> row.
\<close>

definition num_at :: "series \<Rightarrow> string \<Rightarrow> bool" where
  "num_at row label = (case map_of row label of Some (Num c) \<Rightarrow> True | _ \<Rightarrow> False)"

definition vhf_row_ok :: "dtype \<Rightarrow> analyzer \<Rightarrow> series \<Rightarrow> bool" where
  "vhf_row_ok dt self row =
     (list_all
        (\<lambda>r. num_at row (r @ '' CT'')
           \<and> (is_quantstudio self \<longrightarrow>
                 num_at row (r @ '' dRn'')
               \<and> (case map_of (max_dRn self) r of
                     None \<Rightarrow> False
                   | Some m \<Rightarrow> dt = Object \<longrightarrow> m \<noteq> Fin 0))
           \<and> map_of (reporter_dict self) r \<noteq> None)
        (tl (reporter_list self))
      \<and> num_at row (ic self @ '' CT''))"

text \<open>
  A table \<open>hiv_analysis\<close> can analyse: its rows are as long as its header, the
  quantity column of the internal control and of every reporter after position 0
  is there and holds no text, and these reporters have display names.
\<close>

definition numeric_col :: "dataframe \<Rightarrow> string \<Rightarrow> bool" where
  "numeric_col t label =
     (case index_of label (columns t) of
        None \<Rightarrow> False
      | Some i \<Rightarrow> list_all (\<lambda>r. \<not> is_str (cell_at r i)) (rows t))"

definition hiv_table_ok :: "analyzer \<Rightarrow> bool" where
  "hiv_table_ok self =
     (wf_df (df self)
      \<and> numeric_col (df self) (ic self @ '' Quantity'')
      \<and> list_all (\<lambda>r. map_of (reporter_dict self) r \<noteq> None \<and> numeric_col (df self) (r @ '' Quantity''))
           (tl (reporter_list self)))"


text \<open>
  The label a column of the QuantStudio results table carries in the partial
  table of a reporter, after the renaming \<open>parse_qs\<close> applies; and a results
  table \<open>parse_qs\<close> can split: the reporter names are distinct and are the
  values of the \<open>Reporter\<close> column, the columns the summary takes are there,
  the baseline end and the delta-Rn are numeric, the well positions are text,
  and for every reporter exactly one column ends up with the label of its
  delta-Rn.
\<close>

definition text_col :: "dataframe \<Rightarrow> string \<Rightarrow> bool" where
  "text_col t label =
     (case index_of label (columns t) of
        None \<Rightarrow> False
      | Some i \<Rightarrow> list_all (\<lambda>r. is_str (cell_at r i)) (rows t))"

definition qs_label :: "string \<Rightarrow> string \<Rightarrow> string \<Rightarrow> string" where
  "qs_label division fluor c =
     (let c1 = (case map_of (qs_rename fluor) c of None \<Rightarrow> c | Some c' \<Rightarrow> c')
      in if division = ''hiv'' \<and> c1 = ''Quantity'' then fluor @ '' Quantity'' else c1)"

definition qs_table_ok :: "string \<Rightarrow> (string \<times> string) list \<Rightarrow> dataframe \<Rightarrow> bool" where
  "qs_table_ok division rdict t =
     (rdict \<noteq> [] \<and> distinct (map fst rdict)
      \<and> reporter_check t rdict = Inr ()
      \<and> list_all (\<lambda>c. c \<in> set (columns t)) [''Sample Name'', ''CT'', ''Cq Conf'']
      \<and> (division = ''hiv'' \<longrightarrow> ''Quantity'' \<in> set (columns t))
      \<and> numeric_col t ''Baseline End''
      \<and> numeric_col t ''Delta Rn (last cycle)''
      \<and> text_col t ''Well Position''
      \<and> list_all (\<lambda>(f, n). length (filter (\<lambda>c. c = ''Delta Rn (last cycle)'' \<or> c = f @ '' dRn'')
                                      (columns t)) = 1) rdict)"

section \<open>Example inputs\<close>

text \<open>
  A two-reporter HIV table with two wells whose internal control has quantity
  0, the first with a reporter quantity of 100 and a missing sample name, the
  second with a reporter quantity of 0; and the table \<open>hiv_analysis\<close> makes of
  it.
\<close>

definition an0 :: analyzer where
  "an0 = \<lparr>df = \<lparr>columns = [''Well'', ''Sample Name'', ''IC Quantity'', ''VQ Quantity''],
                 rows = [[Str ''A1'', Num NaN, Num (Fin 0), Num (Fin 100)],
                         [Str ''A2'', Str ''s'', Num (Fin 0), Num (Fin 0)]]\<rparr>,
          machine_type = ''Mic'', reporter_dict = [(''IC'', ''Internal Control''), (''VQ'', ''K103N'')],
          reporter_list = [''IC'', ''VQ''], ic = ''IC'', max_dRn = [],
          cq_cutoff = Fin 35, pos_cutoff = Fin 30, dRn_percent_cutoff = Fin (5/100),
          min_drm_percent = Fin (5/100), max_drm_percent = Fin (1/10)\<rparr>"

definition an0_analysed :: analyzer where
  "an0_analysed = an0\<lparr>df := \<lparr>columns = [''Well'', ''Sample Name'', ''IC Quantity'', ''VQ Quantity'',
                                      ''K103N DRM Percentage'', ''K103N Call''],
                 rows = [[Str ''A1'', Num (Fin 0), Num (Fin 0), Num (Fin 100), Num PInf, Str ''Negative''],
                         [Str ''A2'', Str ''s'', Num (Fin 0), Num (Fin 0), Num (Fin 0),
                          Str ''Negative'']]\<rparr>\<rparr>"

text \<open>
  A three-reporter VHF configuration on a Mic instrument, a row in which two
  reporters tie, the same configuration with the positivity cutoff above 98, and
  the same configuration on a QuantStudio with a row in which the reporter with
  the lower Cq has too small a delta-Rn.
\<close>

definition an1 :: analyzer where
  "an1 = \<lparr>df = \<lparr>columns = [], rows = []\<rparr>,
          machine_type = ''Mic'', reporter_dict = [(''IC'', ''Internal Control''), (''A'', ''Ebola''), (''B'', ''Lassa'')],
          reporter_list = [''IC'', ''A'', ''B''], ic = ''IC'', max_dRn = [],
          cq_cutoff = Fin 35, pos_cutoff = Fin 35, dRn_percent_cutoff = Fin (5/100),
          min_drm_percent = Fin (5/100), max_drm_percent = Fin (1/10)\<rparr>"

definition row_tie :: series where
  "row_tie = [(''Well'', Str ''A1''), (''A CT'', Num (Fin 25)), (''B CT'', Num (Fin 25)),
              (''IC CT'', Num (Fin 20))]"

definition an98 :: analyzer where
  "an98 = an1\<lparr>pos_cutoff := Fin 100\<rparr>"

definition row98 :: series where
  "row98 = [(''Well'', Str ''A1''), (''A CT'', Num (Fin (197 / 2))), (''B CT'', Num (Fin 100)),
            (''IC CT'', Num (Fin 18))]"

definition an_qs :: analyzer where
  "an_qs = an1\<lparr>machine_type := ''QuantStudio 5'', max_dRn := [(''IC'', Fin 8), (''A'', Fin 8), (''B'', Fin 8)],
              dRn_percent_cutoff := Fin (1 / 16)\<rparr>"

definition row_qs :: series where
  "row_qs = [(''Well'', Str ''A1''), (''Sample Name'', Str ''s1''),
             (''IC CT'', Num (Fin 20)), (''IC dRn'', Num (Fin 4)),
             (''A CT'', Num (Fin 20)), (''A dRn'', Num (Fin (1 / 4))),
             (''B CT'', Num (Fin 25)), (''B dRn'', Num (Fin 4))]"




definition rgq_table :: dataframe where
  "rgq_table = \<lparr>columns = [''No.'', ''Name'', ''Ct'', ''Ct Comment'', ''Given Conc (copies/reaction)''],
                rows = [[Num (Fin 1), Str ''s1'', Num NaN, Num NaN, Num NaN],
                        [Num (Fin 2), Str ''s2'', Num (Fin 22), Num NaN, Num NaN]]\<rparr>"


definition rgq_files0 :: files where
  "rgq_files0 = \<lparr>read_csv = (\<lambda>p. Inr rgq_table),
                 open_reader = (\<lambda>p. [[''Excel''], [''Quantitative analysis'']])\<rparr>"


definition rgq_reporters :: "(string \<times> string) list" where
  "rgq_reporters = [(''Green'', ''Internal Control''), (''Yellow'', ''Ebola'')]"


definition qs_table :: dataframe where
  "qs_table =
     \<lparr>columns = [''Well'', ''Well Position'', ''Sample Name'', ''Reporter'', ''CT'', ''Cq Conf'',
                 ''Baseline End'', ''Delta Rn (last cycle)''],
      rows = [[Num (Fin 1), Str ''A1'', Str ''s1'', Str ''FAM'', Num (Fin 20), Num (Fin 1), Num (Fin 10), Num (Fin 7)],
              [Num (Fin 1), Str ''A1'', Str ''s1'', Str ''VIC'', Num (Fin 22), Num (Fin 1), Num (Fin 5), Num (Fin 3)],
              [Num (Fin 2), Str ''A2'', Str ''s2'', Str ''FAM'', Num (Fin 20), Num (Fin 1), Num (Fin 9), Num (Fin 9)],
              [Num (Fin 2), Str ''A2'', Str ''s2'', Str ''VIC'', Num (Fin 22), Num (Fin 1), Num (Fin 4), Num (Fin 8)]]\<rparr>"

definition qs_reporters :: "(string \<times> string) list" where
  "qs_reporters = [(''VIC'', ''Internal Control''), (''FAM'', ''Ebola'')]"

definition qs_summary :: dataframe where
  "qs_summary =
     \<lparr>columns = [''Well'', ''Sample Name'', ''VIC CT'', ''VIC Cq Conf'', ''VIC dRn'', ''FAM CT'',
                 ''FAM Cq Conf'', ''FAM dRn''],
      rows = [[Str ''A1'', Str ''s1'', Num (Fin 22), Num (Fin 1), Num (Fin 3), Num (Fin 20), Num (Fin 1), Num (Fin 7)],
              [Str ''A2'', Str ''s2'', Num (Fin 22), Num (Fin 1), Num (Fin 8), Num (Fin 20), Num (Fin 1), Num (Fin 9)]]\<rparr>"

definition qs_ic :: string where
  "qs_ic = ''VIC''"

section \<open>The order of floats\<close>

lemma fl_lt_irrefl: "\<not> fl_lt x x"
  by (cases x) simp_all

lemma fl_lt_trans: "fl_lt x y \<Longrightarrow> fl_lt y z \<Longrightarrow> fl_lt x z"
  by (cases x; cases y; cases z) simp_all

lemma fl_lt_total: "x \<noteq> NaN \<Longrightarrow> y \<noteq> NaN \<Longrightarrow> fl_lt x y \<or> x = y \<or> fl_lt y x"
  by (cases x; cases y) auto

lemma fl_lt_defined: "fl_lt x y \<Longrightarrow> x \<noteq> NaN \<and> y \<noteq> NaN"
  by (cases x; cases y) simp_all

section \<open>Lists, lookups and loops that may fail\<close>

lemma index_of_Some:
  "index_of x xs = Some i \<Longrightarrow> i < length xs \<and> xs ! i = x \<and> (\<forall>j<i. xs ! j \<noteq> x)"
proof (induction xs arbitrary: i)
  case Nil
  then show ?case by simp
next
  case (Cons y ys)
  show ?case
  proof (cases "x = y")
    case True
    with Cons.prems show ?thesis by simp
  next
    case False
    with Cons.prems obtain k where k: "index_of x ys = Some k" "i = Suc k" by auto
    from Cons.IH [OF k(1)] have ih: "k < length ys" "ys ! k = x" "\<forall>j<k. ys ! j \<noteq> x" by auto
    show ?thesis using ih False k(2) by (auto simp: nth_Cons split: nat.splits)
  qed
qed

lemma index_of_member: "x \<in> set xs \<Longrightarrow> \<exists>i. index_of x xs = Some i"
  by (induction xs) auto

lemma index_of_None: "index_of x xs = None \<Longrightarrow> x \<notin> set xs"
  using index_of_member [of x xs] by auto

lemma index_of_in_set: "index_of x xs = Some i \<Longrightarrow> x \<in> set xs"
  using index_of_Some [of x xs i] by (auto simp: in_set_conv_nth)

lemma index_of_hd: "index_of x (x # xs) = Some 0"
  by simp

lemma index_of_append: "index_of x xs = Some i \<Longrightarrow> index_of x (xs @ ys) = Some i"
  by (induction xs arbitrary: i) (auto split: if_splits)

lemma index_of_append_new: "index_of x xs = None \<Longrightarrow> index_of x (xs @ [x]) = Some (length xs)"
  by (induction xs) (auto split: if_splits)

lemma index_of_map_iff:
  assumes "\<And>c. (f c = y) = (c = x)"
  shows "index_of y (map f xs) = index_of x xs"
proof (induction xs)
  case Nil
  then show ?case by simp
next
  case (Cons a xs)
  have "(y = f a) = (x = a)" using assms [of a] by auto
  then show ?case using Cons.IH by simp
qed

lemma map_of_zip_index:
  "index_of x xs = Some k \<Longrightarrow> length ys = length xs \<Longrightarrow> map_of (zip xs ys) x = Some (ys ! k)"
proof (induction xs arbitrary: k ys)
  case Nil
  then show ?case by simp
next
  case (Cons a xs)
  then obtain b ys' where ys: "ys = b # ys'" by (cases ys) auto
  show ?case
  proof (cases "x = a")
    case True
    with Cons.prems ys show ?thesis by simp
  next
    case False
    with Cons.prems obtain k' where k': "index_of x xs = Some k'" "k = Suc k'" by auto
    from Cons.IH [OF k'(1), of ys'] Cons.prems(2) ys False k'(2) show ?thesis by simp
  qed
qed

lemma map_err_Inr:
  "map_err f xs = Inr ys \<Longrightarrow> length ys = length xs \<and> (\<forall>k<length xs. f (xs ! k) = Inr (ys ! k))"
proof (induction xs arbitrary: ys)
  case Nil
  then show ?case by simp
next
  case (Cons x xs)
  from Cons.prems obtain y ys' where y: "f x = Inr y" "map_err f xs = Inr ys'" "ys = y # ys'"
    by (auto split: sum.splits)
  from Cons.IH [OF y(2)] show ?case using y by (auto simp: nth_Cons split: nat.splits)
qed

lemma map_err_map: "map_err f (map h xs) = map_err (\<lambda>x. f (h x)) xs"
  by (induction xs) (simp_all split: sum.splits)

lemma map_err_num_of: "map_err num_of cs = Inr xs \<Longrightarrow> cs = map Num xs"
proof (induction cs arbitrary: xs)
  case Nil
  then show ?case by simp
next
  case (Cons c cs)
  then show ?case by (cases c) (auto split: sum.splits)
qed

lemma map_err_returns:
  "\<forall>x\<in>set xs. \<exists>y. f x = Inr y \<Longrightarrow> \<exists>ys. map_err f xs = Inr ys"
proof (induction xs)
  case Nil
  then show ?case by simp
next
  case (Cons x xs)
  then obtain y ys where "f x = Inr y" "map_err f xs = Inr ys" by auto
  then show ?case by simp
qed

lemma filter_by_keep:
  "map_err f rs = Inr keep \<Longrightarrow> map fst (filter snd (zip rs keep)) = filter (\<lambda>r. f r = Inr True) rs"
proof (induction rs arbitrary: keep)
  case Nil
  then show ?case by simp
next
  case (Cons r rs)
  from Cons.prems obtain k ks where k: "f r = Inr k" "map_err f rs = Inr ks" "keep = k # ks"
    by (auto split: sum.splits)
  from Cons.IH [OF k(2)] show ?case using k by simp
qed

lemma filter_map_length:
  "length (filter (\<lambda>c. c = y) (map f xs)) = length (filter (\<lambda>c. f c = y) xs)"
  by (simp add: filter_map comp_def)

lemma update_fresh: "k \<notin> fst ` set al \<Longrightarrow> AList.update k v al = al @ [(k, v)]"
  by (induction al) auto

lemma append_eq_last: "a @ s = t \<Longrightarrow> s \<noteq> [] \<Longrightarrow> last t = last s"
  by auto

section \<open>vhf_result\<close>

text \<open>
  Python's \<open>min\<close> over a list without NaN returns one of its values that no
  other value is below.
\<close>

lemma foldl_min:
  "m \<noteq> NaN \<Longrightarrow> NaN \<notin> set xs \<Longrightarrow>
   foldl (\<lambda>m y. if fl_lt y m then y else m) m xs \<in> set (m # xs)
   \<and> (\<forall>y \<in> set (m # xs). \<not> fl_lt y (foldl (\<lambda>m y. if fl_lt y m then y else m) m xs))"
proof (induction xs arbitrary: m)
  case Nil
  then show ?case by (simp add: fl_lt_irrefl)
next
  case (Cons x xs)
  let ?m' = "if fl_lt x m then x else m"
  have m': "?m' \<noteq> NaN" using Cons.prems by auto
  have ih: "foldl (\<lambda>m y. if fl_lt y m then y else m) ?m' xs \<in> set (?m' # xs)
     \<and> (\<forall>y \<in> set (?m' # xs). \<not> fl_lt y (foldl (\<lambda>m y. if fl_lt y m then y else m) ?m' xs))"
    using Cons.IH [OF m'] Cons.prems by simp
  let ?r = "foldl (\<lambda>m y. if fl_lt y m then y else m) ?m' xs"
  have r: "?r \<noteq> NaN" using ih m' Cons.prems by auto
  have le: "\<not> fl_lt ?m' ?r" using ih by simp
  have "\<not> fl_lt m ?r \<and> \<not> fl_lt x ?r"
  proof (cases "fl_lt x m")
    case True
    then have "\<not> fl_lt x ?r" using le by simp
    moreover have "\<not> fl_lt m ?r"
    proof
      assume "fl_lt m ?r"
      with True have "fl_lt x ?r" by (rule fl_lt_trans)
      with \<open>\<not> fl_lt x ?r\<close> show False by simp
    qed
    ultimately show ?thesis by simp
  next
    case False
    then have a: "\<not> fl_lt m ?r" using le by simp
    have "\<not> fl_lt x ?r"
    proof
      assume xr: "fl_lt x ?r"
      have "x \<noteq> NaN" using Cons.prems by auto
      then consider "fl_lt x m" | "x = m" | "fl_lt m x"
        using fl_lt_total [of x m] Cons.prems by auto
      then show False
      proof cases
        case 1 with False show False by simp
      next
        case 2 with xr a show False by simp
      next
        case 3 from 3 xr have "fl_lt m ?r" by (rule fl_lt_trans)
        with a show False by simp
      qed
    qed
    with a show ?thesis by simp
  qed
  moreover have "?r \<in> set (m # x # xs)" using ih by auto
  ultimately show ?case using ih by simp
qed

lemma py_min_least:
  assumes "xs \<noteq> []" "NaN \<notin> set xs"
  shows "py_min xs \<in> set xs \<and> (\<forall>y \<in> set xs. \<not> fl_lt y (py_min xs))"
proof -
  obtain x rest where xs: "xs = x # rest" using assms(1) by (cases xs) auto
  show ?thesis using foldl_min [of x rest] assms(2) unfolding xs by auto
qed

text \<open>
  Every value appended to \<open>cq_vals\<close> is the reporter's candidate value, and none
  is NaN: a Cq is appended only after it compared below the cutoff.
\<close>

lemma vhf_append_candidate:
  assumes "vhf_append rnd dt self row r = Inr v"
  shows "v = candidate rnd self row r \<and> v \<noteq> NaN"
  using assms
  by (auto simp: vhf_append_def candidate_def called_positive_def cq_of_def dRn_fraction_def
        is_quantstudio_def dict_get_def dest: fl_lt_defined
      split: if_splits sum.splits option.splits cell.splits)

lemma vhf_cq_vals_candidates:
  assumes "vhf_cq_vals rnd dt self row = Inr cq_vals"
  shows "cq_vals = Fin 98 # map (candidate rnd self row) (tl (reporter_list self)) \<and> NaN \<notin> set cq_vals"
proof -
  from assms obtain vs where vs: "map_err (vhf_append rnd dt self row) (tl (reporter_list self)) = Inr vs"
    "cq_vals = Fin 98 # vs"
    by (auto simp: vhf_cq_vals_def split: sum.splits)
  from map_err_Inr [OF vs(1)] have len: "length vs = length (tl (reporter_list self))"
    and each: "\<forall>k<length (tl (reporter_list self)). vhf_append rnd dt self row (tl (reporter_list self) ! k) = Inr (vs ! k)"
    by auto
  have "\<forall>k<length vs. vs ! k = candidate rnd self row (tl (reporter_list self) ! k) \<and> vs ! k \<noteq> NaN"
    using each len vhf_append_candidate by auto
  then have "vs = map (candidate rnd self row) (tl (reporter_list self))" "NaN \<notin> set vs"
    using len by (auto simp: list_eq_iff_nth_eq in_set_conv_nth)
  then show ?thesis using vs(2) by simp
qed

lemma positive_call_neq:
  "name @ '' Positive'' \<noteq> ''Negative''" "name @ '' Positive'' \<noteq> ''Invalid Result''"
proof -
  show "name @ '' Positive'' \<noteq> ''Negative''"
  proof
    assume "name @ '' Positive'' = ''Negative''"
    then have "length (name @ '' Positive'') = length ''Negative''" by simp
    then show False by simp
  qed
  show "name @ '' Positive'' \<noteq> ''Invalid Result''"
  proof
    assume "name @ '' Positive'' = ''Invalid Result''"
    then have "last (name @ '' Positive'') = last ''Invalid Result''" by simp
    then show False by simp
  qed
qed

text \<open>
  What a returned call says about the index found: it is a first position of a
  least value of the candidate list.
\<close>

lemma vhf_result_index:
  assumes "vhf_result rnd dt self row = Inr call"
  shows "\<exists>cands i. cands = Fin 98 # map (candidate rnd self row) (tl (reporter_list self))
       \<and> NaN \<notin> set cands
       \<and> i < length cands
       \<and> (\<forall>j<length cands. \<not> fl_lt (cands ! j) (cands ! i))
       \<and> (\<forall>j<i. cands ! j \<noteq> cands ! i)
       \<and> (if i \<noteq> 0
            then dict_get (reporter_dict self) (reporter_list self ! i) = Inr (display_name self (reporter_list self ! i))
               \<and> call = display_name self (reporter_list self ! i) @ '' Positive''
            else (\<exists>c. dict_get row (ic self @ '' CT'') = Inr (Num c)
               \<and> call = (if fl_lt c (pos_cutoff self) then ''Negative'' else ''Invalid Result'')))"
proof -
  from assms obtain cq_vals where cq: "vhf_cq_vals rnd dt self row = Inr cq_vals"
    by (auto simp: vhf_result_def split: sum.splits)
  from vhf_cq_vals_candidates [OF cq]
  have cands: "cq_vals = Fin 98 # map (candidate rnd self row) (tl (reporter_list self))"
    and nonan: "NaN \<notin> set cq_vals" by auto
  have ne: "cq_vals \<noteq> []" using cands by simp
  from py_min_least [OF ne nonan]
  have min_in: "py_min cq_vals \<in> set cq_vals" and min_le: "\<forall>y\<in>set cq_vals. \<not> fl_lt y (py_min cq_vals)"
    by auto
  from index_of_member [OF min_in] obtain i where i: "index_of (py_min cq_vals) cq_vals = Some i" by auto
  from index_of_Some [OF i]
  have i_props: "i < length cq_vals" "cq_vals ! i = py_min cq_vals" "\<forall>j<i. cq_vals ! j \<noteq> py_min cq_vals"
    by auto
  have least: "\<forall>j<length cq_vals. \<not> fl_lt (cq_vals ! j) (cq_vals ! i)"
    using min_le i_props(2) by simp
  have first: "\<forall>j<i. cq_vals ! j \<noteq> cq_vals ! i" using i_props by simp
  have call: "if i \<noteq> 0
            then dict_get (reporter_dict self) (reporter_list self ! i) = Inr (display_name self (reporter_list self ! i))
               \<and> call = display_name self (reporter_list self ! i) @ '' Positive''
            else (\<exists>c. dict_get row (ic self @ '' CT'') = Inr (Num c)
               \<and> call = (if fl_lt c (pos_cutoff self) then ''Negative'' else ''Invalid Result''))"
    using assms cq i
    by (auto simp: vhf_result_def display_name_def dict_get_def split: sum.splits option.splits cell.splits if_splits)
  show ?thesis
    using cands nonan i_props(1) least first call by blast
qed

lemma nth_candidates:
  "k < length others \<Longrightarrow> (Fin 98 # map (candidate rnd self row) others) ! Suc k = candidate rnd self row (others ! k)"
  by simp

lemma vhf_call_of_result:
  assumes "reporter_list self = ic self # others"
    and "vhf_result rnd dt self row = Inr call"
  shows "\<exists>cands i.
           cands = Fin 98 # map (\<lambda>r. if called_positive rnd self row r then cq_of row r else Fin 99) others
         \<and> i < length cands
         \<and> (\<forall>j<length cands. \<not> fl_lt (cands ! j) (cands ! i))
         \<and> (\<forall>j<i. fl_lt (cands ! i) (cands ! j))
         \<and> (\<forall>a b. a < b \<and> b < length others \<and> cands ! Suc a = cands ! Suc b \<longrightarrow> i \<noteq> Suc b)
         \<and> call = (if i \<noteq> 0 then display_name self (others ! (i - 1)) @ '' Positive''
                    else if fl_lt (cq_of row (ic self)) (pos_cutoff self) then ''Negative''
                    else ''Invalid Result'')"
proof -
  let ?cands = "Fin 98 # map (candidate rnd self row) others"
  from vhf_result_index [OF assms(2)]
  obtain cands i where cands: "cands = Fin 98 # map (candidate rnd self row) (tl (reporter_list self))"
    and nonan0: "NaN \<notin> set cands"
    and i0: "i < length cands"
    and least0: "\<forall>j<length cands. \<not> fl_lt (cands ! j) (cands ! i)"
    and first0: "\<forall>j<i. cands ! j \<noteq> cands ! i"
    and call0: "if i \<noteq> 0
            then dict_get (reporter_dict self) (reporter_list self ! i) = Inr (display_name self (reporter_list self ! i))
               \<and> call = display_name self (reporter_list self ! i) @ '' Positive''
            else (\<exists>c. dict_get row (ic self @ '' CT'') = Inr (Num c)
               \<and> call = (if fl_lt c (pos_cutoff self) then ''Negative'' else ''Invalid Result''))"
    by blast
  have ceq: "cands = ?cands" using cands assms(1) by simp
  have i: "i < length ?cands" using i0 ceq by simp
  have nonan: "NaN \<notin> set ?cands" using nonan0 ceq by simp
  have least: "\<forall>j<length ?cands. \<not> fl_lt (?cands ! j) (?cands ! i)" using least0 ceq by simp
  have first: "\<forall>j<i. ?cands ! j \<noteq> ?cands ! i" using first0 ceq by simp
  have call: "if i \<noteq> 0
            then call = display_name self (reporter_list self ! i) @ '' Positive''
            else (\<exists>c. dict_get row (ic self @ '' CT'') = Inr (Num c)
               \<and> call = (if fl_lt c (pos_cutoff self) then ''Negative'' else ''Invalid Result''))"
    using call0 by (simp split: if_splits)
  have strict: "\<forall>j<i. fl_lt (?cands ! i) (?cands ! j)"
  proof (intro allI impI)
    fix j assume j: "j < i"
    then have jl: "j < length ?cands" using i by simp
    have "?cands ! j \<noteq> NaN" "?cands ! i \<noteq> NaN"
      using nonan jl i nth_mem [of j ?cands] nth_mem [of i ?cands] by metis+
    with fl_lt_total [of "?cands ! j" "?cands ! i"] first least j jl
    show "fl_lt (?cands ! i) (?cands ! j)" by blast
  qed
  have c: "call = (if i \<noteq> 0 then display_name self (others ! (i - 1)) @ '' Positive''
                    else if fl_lt (cq_of row (ic self)) (pos_cutoff self) then ''Negative''
                    else ''Invalid Result'')"
  proof (cases "i = 0")
    case True
    with call obtain c where "dict_get row (ic self @ '' CT'') = Inr (Num c)"
      "call = (if fl_lt c (pos_cutoff self) then ''Negative'' else ''Invalid Result'')" by auto
    then show ?thesis using True
      by (auto simp: cq_of_def dict_get_def split: option.splits)
  next
    case False
    then have "reporter_list self ! i = others ! (i - 1)" using assms(1) by (cases i) simp_all
    with call False show ?thesis by simp
  qed
  have eq: "?cands = Fin 98 # map (\<lambda>r. if called_positive rnd self row r then cq_of row r else Fin 99) others"
    by (simp add: candidate_def)
  have tie: "\<forall>a b. a < b \<and> b < length others \<and> ?cands ! Suc a = ?cands ! Suc b \<longrightarrow> i \<noteq> Suc b"
  proof (intro allI impI notI)
    fix a b assume ab: "a < b \<and> b < length others \<and> ?cands ! Suc a = ?cands ! Suc b" and ib: "i = Suc b"
    then have "Suc a < i" by simp
    with strict have "fl_lt (?cands ! i) (?cands ! Suc a)" by blast
    with ab ib show False by (simp add: fl_lt_irrefl)
  qed
  show ?thesis
    using i least strict tie c unfolding eq by blast
qed

lemma vhf_sentinel_of_result:
  assumes "reporter_list self = ic self # others"
    and "vhf_result rnd dt self row = Inr call"
  shows "((call \<noteq> ''Negative'' \<and> call \<noteq> ''Invalid Result'')
            = (\<exists>r\<in>set others. called_positive rnd self row r \<and> fl_lt (cq_of row r) (Fin 98)))
       \<and> ((\<forall>r\<in>set others. called_positive rnd self row r \<longrightarrow> \<not> fl_lt (cq_of row r) (Fin 98))
            \<longrightarrow> call = ''Negative'' \<or> call = ''Invalid Result'')
       \<and> (pos_cutoff self \<noteq> NaN \<and> \<not> fl_lt (Fin 98) (pos_cutoff self)
            \<longrightarrow> ((call \<noteq> ''Negative'' \<and> call \<noteq> ''Invalid Result'')
                  = (\<exists>r\<in>set others. called_positive rnd self row r)))"
proof -
  let ?cands = "Fin 98 # map (candidate rnd self row) others"
  from vhf_result_index [OF assms(2)]
  obtain cands i where cands: "cands = Fin 98 # map (candidate rnd self row) (tl (reporter_list self))"
    and nonan0: "NaN \<notin> set cands"
    and i0: "i < length cands"
    and least0: "\<forall>j<length cands. \<not> fl_lt (cands ! j) (cands ! i)"
    and first0: "\<forall>j<i. cands ! j \<noteq> cands ! i"
    and call0: "if i \<noteq> 0
            then dict_get (reporter_dict self) (reporter_list self ! i) = Inr (display_name self (reporter_list self ! i))
               \<and> call = display_name self (reporter_list self ! i) @ '' Positive''
            else (\<exists>c. dict_get row (ic self @ '' CT'') = Inr (Num c)
               \<and> call = (if fl_lt c (pos_cutoff self) then ''Negative'' else ''Invalid Result''))"
    by blast
  have ceq: "cands = ?cands" using cands assms(1) by simp
  have i: "i < length ?cands" using i0 ceq by simp
  have nonan: "NaN \<notin> set ?cands" using nonan0 ceq by simp
  have least: "\<forall>j<length ?cands. \<not> fl_lt (?cands ! j) (?cands ! i)" using least0 ceq by simp
  have first: "\<forall>j<i. ?cands ! j \<noteq> ?cands ! i" using first0 ceq by simp
  have call: "if i \<noteq> 0
            then call = display_name self (reporter_list self ! i) @ '' Positive''
            else (\<exists>c. dict_get row (ic self @ '' CT'') = Inr (Num c)
               \<and> call = (if fl_lt c (pos_cutoff self) then ''Negative'' else ''Invalid Result''))"
    using call0 by (simp split: if_splits)
  have pos_iff: "(call \<noteq> ''Negative'' \<and> call \<noteq> ''Invalid Result'') = (i \<noteq> 0)"
    using call positive_call_neq by (auto split: if_splits)
  have idx_iff: "(i \<noteq> 0) = (\<exists>r\<in>set others. called_positive rnd self row r \<and> fl_lt (cq_of row r) (Fin 98))"
  proof
    assume nz: "i \<noteq> 0"
    then obtain k where k: "i = Suc k" "k < length others" using i by (cases i) auto
    have "?cands ! 0 \<noteq> ?cands ! i" using first nz by blast
    moreover have "\<not> fl_lt (?cands ! 0) (?cands ! i)"
    proof -
      have "0 < length ?cands" by simp
      with least show ?thesis by blast
    qed
    moreover have "?cands ! i \<noteq> NaN" using nonan nth_mem [OF i] by metis
    ultimately have lt: "fl_lt (?cands ! i) (Fin 98)"
      using fl_lt_total [of "?cands ! i" "Fin 98"] by auto
    have ci: "?cands ! i = candidate rnd self row (others ! k)" using k by simp
    have "called_positive rnd self row (others ! k) \<and> fl_lt (cq_of row (others ! k)) (Fin 98)"
      using lt unfolding ci candidate_def by (auto split: if_splits)
    then show "\<exists>r\<in>set others. called_positive rnd self row r \<and> fl_lt (cq_of row r) (Fin 98)"
      using k(2) nth_mem by blast
  next
    assume "\<exists>r\<in>set others. called_positive rnd self row r \<and> fl_lt (cq_of row r) (Fin 98)"
    then obtain r where r: "r \<in> set others" "called_positive rnd self row r" "fl_lt (cq_of row r) (Fin 98)"
      by blast
    then obtain k where k: "k < length others" "others ! k = r" by (auto simp: in_set_conv_nth)
    have "?cands ! Suc k = cq_of row r" using k r(2) by (simp add: candidate_def)
    then have "fl_lt (?cands ! Suc k) (?cands ! 0)" using r(3) by simp
    moreover have "Suc k < length ?cands" using k by simp
    ultimately show "i \<noteq> 0" using least by metis
  qed
  have below: "called_positive rnd self row r \<Longrightarrow> fl_lt (cq_of row r) (Fin 98)"
    if "pos_cutoff self \<noteq> NaN" "\<not> fl_lt (Fin 98) (pos_cutoff self)" for r
  proof -
    assume "called_positive rnd self row r"
    then have a: "fl_lt (cq_of row r) (pos_cutoff self)" by (simp add: called_positive_def)
    from that fl_lt_total [of "pos_cutoff self" "Fin 98"]
    consider "pos_cutoff self = Fin 98" | "fl_lt (pos_cutoff self) (Fin 98)" by auto
    then show ?thesis using a fl_lt_trans by cases auto
  qed
  have a: "(call \<noteq> ''Negative'' \<and> call \<noteq> ''Invalid Result'')
            = (\<exists>r\<in>set others. called_positive rnd self row r \<and> fl_lt (cq_of row r) (Fin 98))"
    using pos_iff idx_iff by simp
  have b: "(\<forall>r\<in>set others. called_positive rnd self row r \<longrightarrow> \<not> fl_lt (cq_of row r) (Fin 98))
            \<longrightarrow> call = ''Negative'' \<or> call = ''Invalid Result''"
    using a by blast
  have c: "pos_cutoff self \<noteq> NaN \<and> \<not> fl_lt (Fin 98) (pos_cutoff self)
            \<longrightarrow> ((call \<noteq> ''Negative'' \<and> call \<noteq> ''Invalid Result'')
                  = (\<exists>r\<in>set others. called_positive rnd self row r))"
    using a below by blast
  from a b c show ?thesis by (intro conjI)
qed

text \<open>
  \<open>vhf_result\<close> returns a call for every row it can classify, whatever the
  float division rounds to and whichever dtype the row has.
\<close>

lemma num_at_Some: "num_at row label \<Longrightarrow> \<exists>c. map_of row label = Some (Num c)"
  by (auto simp: num_at_def split: option.splits cell.splits)

lemma vhf_append_returns:
  assumes "num_at row (r @ '' CT'')"
    and "is_quantstudio self \<longrightarrow>
           num_at row (r @ '' dRn'')
         \<and> (case map_of (max_dRn self) r of None \<Rightarrow> False | Some m \<Rightarrow> dt = Object \<longrightarrow> m \<noteq> Fin 0)"
  shows "\<exists>v. vhf_append rnd dt self row r = Inr v"
proof -
  from assms(1) obtain c where c: "map_of row (r @ '' CT'') = Some (Num c)" using num_at_Some by blast
  show ?thesis
  proof (cases "is_quantstudio self")
    case False
    then show ?thesis using c by (auto simp: vhf_append_def is_quantstudio_def dict_get_def)
  next
    case True
    with assms(2) obtain d m where d: "map_of row (r @ '' dRn'') = Some (Num d)"
      and m: "map_of (max_dRn self) r = Some m" and z: "dt = Object \<longrightarrow> m \<noteq> Fin 0"
      using num_at_Some by (auto split: option.splits)
    show ?thesis using True c d m z
      by (auto simp: vhf_append_def is_quantstudio_def dict_get_def)
  qed
qed

lemma vhf_result_returns:
  assumes "vhf_row_ok dt self row"
  shows "\<exists>call. vhf_result rnd dt self row = Inr call"
proof -
  from assms have each: "\<forall>r\<in>set (tl (reporter_list self)).
        num_at row (r @ '' CT'')
      \<and> (is_quantstudio self \<longrightarrow>
            num_at row (r @ '' dRn'')
          \<and> (case map_of (max_dRn self) r of None \<Rightarrow> False | Some m \<Rightarrow> dt = Object \<longrightarrow> m \<noteq> Fin 0))
      \<and> map_of (reporter_dict self) r \<noteq> None"
    and ctrl: "num_at row (ic self @ '' CT'')"
    by (auto simp: vhf_row_ok_def list_all_iff)
  have "\<forall>r\<in>set (tl (reporter_list self)). \<exists>v. vhf_append rnd dt self row r = Inr v"
    using each vhf_append_returns by blast
  then obtain vs where vs: "map_err (vhf_append rnd dt self row) (tl (reporter_list self)) = Inr vs"
    using map_err_returns by blast
  then have cq: "vhf_cq_vals rnd dt self row = Inr (Fin 98 # vs)" by (simp add: vhf_cq_vals_def)
  let ?cq = "Fin 98 # vs"
  from vhf_cq_vals_candidates [OF cq] have nonan: "NaN \<notin> set ?cq" by blast
  have "py_min ?cq \<in> set ?cq" using py_min_least [of ?cq] nonan by blast
  then obtain i where i: "index_of (py_min ?cq) ?cq = Some i" using index_of_member by metis
  from index_of_Some [OF i] have il: "i < length ?cq" by simp
  have lv: "length vs = length (tl (reporter_list self))" using map_err_Inr [OF vs] by simp
  show ?thesis
  proof (cases "i = 0")
    case True
    from ctrl obtain c where "map_of row (ic self @ '' CT'') = Some (Num c)" using num_at_Some by blast
    then show ?thesis using cq i True by (simp add: vhf_result_def dict_get_def)
  next
    case False
    then obtain k where k: "i = Suc k" by (cases i) auto
    then have kl: "k < length (tl (reporter_list self))" using il lv by simp
    then have "reporter_list self ! i = tl (reporter_list self) ! k"
      using k by (cases "reporter_list self") auto
    moreover have "tl (reporter_list self) ! k \<in> set (tl (reporter_list self))" using kl by simp
    ultimately have "map_of (reporter_dict self) (reporter_list self ! i) \<noteq> None"
      using each by metis
    then obtain n where "map_of (reporter_dict self) (reporter_list self ! i) = Some n" by auto
    then show ?thesis using cq i False by (simp add: vhf_result_def dict_get_def)
  qed
qed

text \<open>The calls of the example rows.\<close>

lemma vhf_result_row_tie: "vhf_result Fin Object an1 row_tie = Inr ''Ebola Positive''"
  by (simp add: vhf_result_def vhf_cq_vals_def vhf_append_def an1_def row_tie_def dict_get_def)

lemma vhf_result_row_qs: "vhf_result Fin Object an_qs row_qs = Inr ''Lassa Positive''"
  by (simp add: vhf_result_def vhf_cq_vals_def vhf_append_def an1_def an_qs_def row_qs_def dict_get_def
        fl_gt_def)

lemma vhf_result_row98: "vhf_result Fin Object an98 row98 = Inr ''Negative''"
  by (simp add: vhf_result_def vhf_cq_vals_def vhf_append_def an1_def an98_def row98_def dict_get_def)

text \<open>
  C2. With the internal control first in the configured order and the other
  reporters after it, \<open>vhf_result\<close> returns a call for every row it can
  classify, and the call comes from this procedure: the candidate list holds 98
  at index 0 and then, for each other reporter in configured order, its Cq if it
  is called positive (Cq strictly below the cutoff, and on a QuantStudio the
  delta-Rn fraction above the configured fraction) and 99 otherwise; the index
  chosen holds a least value and every earlier position holds a strictly larger
  one, so of two reporters with equal candidate values the later one is never
  chosen; a nonzero index gives the display name of that reporter followed by
  \<open>Positive\<close>, index 0 gives \<open>Negative\<close> when the internal control's Cq is
  strictly below the cutoff and \<open>Invalid Result\<close> otherwise. The fraction of
  the QuantStudio gate is the float quotient the code computes: the statement
  holds for every rounding \<open>rnd\<close> and for both dtypes of the row.
\<close>

theorem vhf_result_call:
  assumes "reporter_list self = ic self # others"
    and "vhf_row_ok dt self row"
  shows "\<exists>call cands i.
           vhf_result rnd dt self row = Inr call
         \<and> cands = Fin 98 # map (\<lambda>r. if called_positive rnd self row r then cq_of row r else Fin 99) others
         \<and> i < length cands
         \<and> (\<forall>j<length cands. \<not> fl_lt (cands ! j) (cands ! i))
         \<and> (\<forall>j<i. fl_lt (cands ! i) (cands ! j))
         \<and> (\<forall>a b. a < b \<and> b < length others \<and> cands ! Suc a = cands ! Suc b \<longrightarrow> i \<noteq> Suc b)
         \<and> call = (if i \<noteq> 0 then display_name self (others ! (i - 1)) @ '' Positive''
                    else if fl_lt (cq_of row (ic self)) (pos_cutoff self) then ''Negative''
                    else ''Invalid Result'')"
proof -
  from vhf_result_returns [OF assms(2)] obtain call where call: "vhf_result rnd dt self row = Inr call"
    by blast
  from vhf_call_of_result [OF assms(1) call] call show ?thesis by blast
qed

text \<open>
  The tie of \<open>row_tie\<close> (both reporters at Cq 25) goes to the reporter
  configured first; on the QuantStudio, \<open>row_qs\<close> is called for the reporter
  with the higher Cq, the other one failing the delta-Rn gate.
\<close>

theorem vhf_result_call_witness:
  "reporter_list an1 = ic an1 # [''A'', ''B'']
   \<and> vhf_row_ok Object an1 row_tie
   \<and> vhf_result Fin Object an1 row_tie = Inr ''Ebola Positive''
   \<and> reporter_list an_qs = ic an_qs # [''A'', ''B'']
   \<and> vhf_row_ok Object an_qs row_qs
   \<and> called_positive Fin an_qs row_qs ''B''
   \<and> \<not> called_positive Fin an_qs row_qs ''A''
   \<and> vhf_result Fin Object an_qs row_qs = Inr ''Lassa Positive''
   \<and> (\<exists>call cands i.
           vhf_result Fin Object an1 row_tie = Inr call
         \<and> cands = Fin 98 # map (\<lambda>r. if called_positive Fin an1 row_tie r then cq_of row_tie r else Fin 99)
                             [''A'', ''B'']
         \<and> i < length cands
         \<and> (\<forall>j<length cands. \<not> fl_lt (cands ! j) (cands ! i))
         \<and> (\<forall>j<i. fl_lt (cands ! i) (cands ! j))
         \<and> (\<forall>a b. a < b \<and> b < length [''A'', ''B''] \<and> cands ! Suc a = cands ! Suc b \<longrightarrow> i \<noteq> Suc b)
         \<and> call = (if i \<noteq> 0 then display_name an1 ([''A'', ''B''] ! (i - 1)) @ '' Positive''
                    else if fl_lt (cq_of row_tie (ic an1)) (pos_cutoff an1) then ''Negative''
                    else ''Invalid Result''))"
proof -
  have p1: "reporter_list an1 = ic an1 # [''A'', ''B'']" by (simp add: an1_def)
  have p2: "vhf_row_ok Object an1 row_tie"
    by (simp add: vhf_row_ok_def num_at_def is_quantstudio_def an1_def row_tie_def)
  have q1: "reporter_list an_qs = ic an_qs # [''A'', ''B'']" by (simp add: an_qs_def an1_def)
  have q2: "vhf_row_ok Object an_qs row_qs"
    by (simp add: vhf_row_ok_def num_at_def is_quantstudio_def an_qs_def an1_def row_qs_def)
  have q3: "called_positive Fin an_qs row_qs ''B''"
    by (simp add: called_positive_def cq_of_def dRn_fraction_def is_quantstudio_def fl_gt_def
          an_qs_def an1_def row_qs_def)
  have q4: "\<not> called_positive Fin an_qs row_qs ''A''"
    by (simp add: called_positive_def cq_of_def dRn_fraction_def is_quantstudio_def fl_gt_def
          an_qs_def an1_def row_qs_def)
  from vhf_result_call [OF p1 p2, of Fin] vhf_result_call [OF q1 q2, of Fin]
       p1 p2 q1 q2 q3 q4 vhf_result_row_tie vhf_result_row_qs
  show ?thesis by blast
qed

text \<open>
  C10. With the internal control first in the configured order, \<open>vhf_result\<close>
  returns a call for every row it can classify, and the call names a reporter
  exactly when some reporter after the internal control is called positive with
  a Cq strictly below 98: the 98 at index 0 wins against, and ties before, every
  other candidate. So when every reporter called positive has a Cq of 98 or more
  the call is \<open>Negative\<close> or \<open>Invalid Result\<close>; and with a positivity cutoff
  of at most 98 the call names a reporter exactly when some reporter is called
  positive.
\<close>

theorem vhf_result_sentinel:
  assumes "reporter_list self = ic self # others"
    and "vhf_row_ok dt self row"
  shows "\<exists>call.
           vhf_result rnd dt self row = Inr call
         \<and> ((call \<noteq> ''Negative'' \<and> call \<noteq> ''Invalid Result'')
              = (\<exists>r\<in>set others. called_positive rnd self row r \<and> fl_lt (cq_of row r) (Fin 98)))
         \<and> ((\<forall>r\<in>set others. called_positive rnd self row r \<longrightarrow> \<not> fl_lt (cq_of row r) (Fin 98))
              \<longrightarrow> call = ''Negative'' \<or> call = ''Invalid Result'')
         \<and> (pos_cutoff self \<noteq> NaN \<and> \<not> fl_lt (Fin 98) (pos_cutoff self)
              \<longrightarrow> ((call \<noteq> ''Negative'' \<and> call \<noteq> ''Invalid Result'')
                    = (\<exists>r\<in>set others. called_positive rnd self row r)))"
proof -
  from vhf_result_returns [OF assms(2)] obtain call where call: "vhf_result rnd dt self row = Inr call"
    by blast
  from vhf_sentinel_of_result [OF assms(1) call] call show ?thesis by blast
qed

text \<open>
  With the cutoff at 100, a well whose only positive reporter has Cq 98.5 is
  called \<open>Negative\<close>.
\<close>

theorem vhf_result_sentinel_witness:
  "reporter_list an98 = ic an98 # [''A'', ''B'']
   \<and> vhf_row_ok Object an98 row98
   \<and> fl_lt (Fin 98) (pos_cutoff an98)
   \<and> called_positive Fin an98 row98 ''A''
   \<and> \<not> fl_lt (cq_of row98 ''A'') (Fin 98)
   \<and> \<not> called_positive Fin an98 row98 ''B''
   \<and> vhf_result Fin Object an98 row98 = Inr ''Negative''"
proof -
  have p1: "reporter_list an98 = ic an98 # [''A'', ''B'']" by (simp add: an98_def an1_def)
  have p2: "vhf_row_ok Object an98 row98"
    by (simp add: vhf_row_ok_def num_at_def is_quantstudio_def an98_def an1_def row98_def)
  have a: "called_positive Fin an98 row98 ''A''"
    by (simp add: called_positive_def cq_of_def is_quantstudio_def an98_def an1_def row98_def)
  have b: "\<not> fl_lt (cq_of row98 ''A'') (Fin 98)" by (simp add: cq_of_def row98_def)
  have c: "\<not> called_positive Fin an98 row98 ''B''"
    by (simp add: called_positive_def cq_of_def is_quantstudio_def an98_def an1_def row98_def)
  have d: "fl_lt (Fin 98) (pos_cutoff an98)" by (simp add: an98_def)
  from vhf_result_sentinel [OF p1 p2, of Fin] p1 p2 a b c d vhf_result_row98
  show ?thesis by blast
qed

section \<open>hiv_result and hiv_analysis\<close>

text \<open>
  C3. For a row whose percentage and internal-control quantity are numbers,
  \<open>hiv_result\<close> is \<open>Negative\<close> when the percentage is strictly below the
  minimum threshold or the internal-control quantity is below 50, otherwise
  \<open>Positive\<close> when the percentage is at least the maximum threshold, otherwise
  \<open>Indeterminate\<close>. A percentage equal to the minimum threshold with a control
  of 50 or more is not \<open>Negative\<close>; a percentage equal to the maximum threshold
  that passes the first test is \<open>Positive\<close>.
\<close>

theorem hiv_result_rule:
  assumes "dict_get row col = Inr (Num p)"
    and "dict_get row (ic self @ '' Quantity'') = Inr (Num q)"
  shows "hiv_result self row col =
           Inr (if fl_lt p (min_drm_percent self) \<or> fl_lt q (Fin 50) then ''Negative''
                else if fl_ge p (max_drm_percent self) then ''Positive''
                else ''Indeterminate'')
         \<and> (p = min_drm_percent self \<and> \<not> fl_lt q (Fin 50)
              \<longrightarrow> hiv_result self row col \<noteq> Inr ''Negative'')
         \<and> (p = max_drm_percent self \<and> p \<noteq> NaN \<and> \<not> fl_lt p (min_drm_percent self)
              \<and> \<not> fl_lt q (Fin 50)
              \<longrightarrow> hiv_result self row col = Inr ''Positive'')"
proof -
  have irrefl: "\<not> fl_lt x x" for x by (cases x) simp_all
  have refl: "x \<noteq> NaN \<Longrightarrow> fl_ge x x" for x by (cases x) simp_all
  have eq: "hiv_result self row col =
           Inr (if fl_lt p (min_drm_percent self) \<or> fl_lt q (Fin 50) then ''Negative''
                else if fl_ge p (max_drm_percent self) then ''Positive''
                else ''Indeterminate'')"
    using assms by (auto simp add: hiv_result_def split: bool.splits)
  show ?thesis
    unfolding eq using irrefl refl by auto
qed

text \<open>
  The thresholds 0.05 and 0.1: a percentage at the minimum is
  \<open>Indeterminate\<close>, at the maximum \<open>Positive\<close>, below the minimum \<open>Negative\<close>,
  and any percentage with a control of 49 is \<open>Negative\<close>.
\<close>

theorem hiv_result_rule_witness:
  "hiv_result an0 [(''K103N DRM Percentage'', Num (Fin (1/20))), (''IC Quantity'', Num (Fin 1000))]
      ''K103N DRM Percentage'' = Inr ''Indeterminate''
   \<and> hiv_result an0 [(''K103N DRM Percentage'', Num (Fin (1/10))), (''IC Quantity'', Num (Fin 1000))]
      ''K103N DRM Percentage'' = Inr ''Positive''
   \<and> hiv_result an0 [(''K103N DRM Percentage'', Num (Fin (1/25))), (''IC Quantity'', Num (Fin 1000))]
      ''K103N DRM Percentage'' = Inr ''Negative''
   \<and> hiv_result an0 [(''K103N DRM Percentage'', Num (Fin (3/25))), (''IC Quantity'', Num (Fin 49))]
      ''K103N DRM Percentage'' = Inr ''Negative''"
  using hiv_result_rule [of "[(''K103N DRM Percentage'', Num (Fin (1/20))), (''IC Quantity'', Num (Fin 1000))]"
          "''K103N DRM Percentage''" "Fin (1/20)" an0 "Fin 1000"]
        hiv_result_rule [of "[(''K103N DRM Percentage'', Num (Fin (1/10))), (''IC Quantity'', Num (Fin 1000))]"
          "''K103N DRM Percentage''" "Fin (1/10)" an0 "Fin 1000"]
        hiv_result_rule [of "[(''K103N DRM Percentage'', Num (Fin (1/25))), (''IC Quantity'', Num (Fin 1000))]"
          "''K103N DRM Percentage''" "Fin (1/25)" an0 "Fin 1000"]
        hiv_result_rule [of "[(''K103N DRM Percentage'', Num (Fin (3/25))), (''IC Quantity'', Num (Fin 49))]"
          "''K103N DRM Percentage''" "Fin (3/25)" an0 "Fin 49"]
  by (simp add: an0_def dict_get_def)

text \<open>
  How one pass of the loop of \<open>hiv_analysis\<close> changes the table: the labels
  already there stay in place, and every cell of a column other than the two the
  pass writes is the old cell passed through \<open>fillna(0)\<close>.
\<close>

lemma df_col_length: "df_col t name = Inr cs \<Longrightarrow> length cs = length (rows t)"
  by (auto simp: df_col_def split: option.splits)

lemma wf_df_row: "wf_df t \<Longrightarrow> i < length (rows t) \<Longrightarrow> length (rows t ! i) = length (columns t)"
  by (simp add: wf_df_def list_all_length)

lemma df_assign_frame:
  assumes wf: "wf_df t" and len: "length vals = length (rows t)"
  shows "wf_df (df_assign t name vals)"
    and "length (rows (df_assign t name vals)) = length (rows t)"
    and "length (columns t) \<le> length (columns (df_assign t name vals))"
    and "j < length (columns t) \<Longrightarrow> columns (df_assign t name vals) ! j = columns t ! j"
    and "j < length (columns t) \<Longrightarrow> columns t ! j \<noteq> name \<Longrightarrow> i < length (rows t) \<Longrightarrow>
           rows (df_assign t name vals) ! i ! j = rows t ! i ! j"
proof -
  show "wf_df (df_assign t name vals)"
    using wf len
    by (auto simp: df_assign_def wf_df_def list_all_length split: option.splits)
  show "length (rows (df_assign t name vals)) = length (rows t)"
    using len by (simp add: df_assign_def split: option.splits)
  show "length (columns t) \<le> length (columns (df_assign t name vals))"
    by (simp add: df_assign_def split: option.splits)
  show "j < length (columns t) \<Longrightarrow> columns (df_assign t name vals) ! j = columns t ! j"
    by (simp add: df_assign_def nth_append split: option.splits)
  show "rows (df_assign t name vals) ! i ! j = rows t ! i ! j"
    if j: "j < length (columns t)" and ne: "columns t ! j \<noteq> name" and i: "i < length (rows t)"
  proof (cases "index_of name (columns t)")
    case None
    have "length (rows t ! i) = length (columns t)" using wf i by (rule wf_df_row)
    then show ?thesis using None i j len by (simp add: df_assign_def nth_append)
  next
    case (Some k)
    from index_of_Some [OF Some] have "columns t ! k = name" by simp
    with ne have "k \<noteq> j" by auto
    then show ?thesis using Some i len by (simp add: df_assign_def)
  qed
qed

lemma fillna0_frame:
  shows "wf_df t \<Longrightarrow> wf_df (fillna0 t)"
    and "length (rows (fillna0 t)) = length (rows t)"
    and "columns (fillna0 t) = columns t"
    and "wf_df t \<Longrightarrow> i < length (rows t) \<Longrightarrow> j < length (columns t) \<Longrightarrow>
           rows (fillna0 t) ! i ! j = fill0 (rows t ! i ! j)"
  by (auto simp: fillna0_def wf_df_def list_all_length)

lemma fill0_idem: "fill0 (fill0 c) = fill0 c"
  by (simp add: fill0_def)

lemma hiv_step_frame:
  assumes step: "hiv_analysis_step rnd self fluor = Inr self'" and wf: "wf_df (df self)"
  shows "wf_df (df self')"
    and "length (rows (df self')) = length (rows (df self))"
    and "length (columns (df self)) \<le> length (columns (df self'))"
    and "reporter_dict self' = reporter_dict self"
    and "reporter_list self' = reporter_list self"
    and "j < length (columns (df self)) \<Longrightarrow> columns (df self') ! j = columns (df self) ! j"
    and "j < length (columns (df self)) \<Longrightarrow>
         columns (df self) ! j \<noteq> display_name self fluor @ '' DRM Percentage'' \<Longrightarrow>
         columns (df self) ! j \<noteq> display_name self fluor @ '' Call'' \<Longrightarrow>
         i < length (rows (df self)) \<Longrightarrow>
           rows (df self') ! i ! j = fill0 (rows (df self) ! i ! j)"
proof -
  from step obtain name num den pct calls where
    name: "dict_get (reporter_dict self) fluor = Inr name"
    and num: "df_col (df self) (fluor @ '' Quantity'') = Inr num"
    and den: "df_col (df self) (ic self @ '' Quantity'') = Inr den"
    and pct: "series_div rnd num den = Inr pct"
    and calls: "map_err (\<lambda>r. hiv_result self
                   (row_series (fillna0 (df_assign (df self) (name @ '' DRM Percentage'') pct)) r)
                   (name @ '' DRM Percentage''))
                 (rows (fillna0 (df_assign (df self) (name @ '' DRM Percentage'') pct))) = Inr calls"
    and self': "self' = self\<lparr>df := df_assign (fillna0 (df_assign (df self) (name @ '' DRM Percentage'') pct))
                                   (name @ '' Call'') (map Str calls)\<rparr>"
    by (auto simp: hiv_analysis_step_def Let_def split: sum.splits)
  have dn: "display_name self fluor = name"
    using name by (auto simp: display_name_def dict_get_def split: option.splits)
  let ?t0 = "df self"
  let ?t1 = "df_assign ?t0 (name @ '' DRM Percentage'') pct"
  let ?t2 = "fillna0 ?t1"
  let ?t3 = "df_assign ?t2 (name @ '' Call'') (map Str calls)"
  have lp: "length pct = length (rows ?t0)"
    using map_err_Inr [OF pct [unfolded series_div_def]] df_col_length [OF num] df_col_length [OF den]
    by simp
  note a1 = df_assign_frame [OF wf lp, where name = "name @ '' DRM Percentage''"]
  have wf2: "wf_df ?t2" using a1(1) by (rule fillna0_frame(1))
  have lc: "length (map Str calls) = length (rows ?t2)"
    using map_err_Inr [OF calls] by simp
  note a3 = df_assign_frame [OF wf2 lc, where name = "name @ '' Call''"]
  have r2: "length (rows ?t2) = length (rows ?t0)" using a1(2) by (simp add: fillna0_frame(2))
  have c2: "columns ?t2 = columns ?t1" by (rule fillna0_frame(3))
  show "wf_df (df self')" using a3(1) by (simp add: self')
  show "length (rows (df self')) = length (rows (df self))" using a3(2) r2 by (simp add: self')
  show "length (columns (df self)) \<le> length (columns (df self'))"
    using a1(3) a3(3) c2 by (simp add: self')
  show "reporter_dict self' = reporter_dict self" by (simp add: self')
  show "reporter_list self' = reporter_list self" by (simp add: self')
  show cols: "columns (df self') ! j = columns (df self) ! j" if j: "j < length (columns (df self))"
  proof -
    have j1: "j < length (columns ?t2)" using j a1(3) c2 by simp
    have "columns ?t3 ! j = columns ?t2 ! j" using a3(4) [OF j1] .
    also have "\<dots> = columns ?t0 ! j" using a1(4) [OF j] c2 by simp
    finally show ?thesis by (simp add: self')
  qed
  show "rows (df self') ! i ! j = fill0 (rows (df self) ! i ! j)"
    if j: "j < length (columns (df self))"
      and n1: "columns (df self) ! j \<noteq> display_name self fluor @ '' DRM Percentage''"
      and n2: "columns (df self) ! j \<noteq> display_name self fluor @ '' Call''"
      and i: "i < length (rows (df self))"
  proof -
    have j1: "j < length (columns ?t1)" using j a1(3) by simp
    have j2: "j < length (columns ?t2)" using j1 c2 by simp
    have i1: "i < length (rows ?t1)" using i a1(2) by simp
    have i2: "i < length (rows ?t2)" using i r2 by simp
    have cj: "columns ?t2 ! j = columns ?t0 ! j" using a1(4) [OF j] c2 by simp
    have "rows ?t3 ! i ! j = rows ?t2 ! i ! j"
      using a3(5) [OF j2 _ i2] cj n2 dn by simp
    also have "\<dots> = fill0 (rows ?t1 ! i ! j)"
      using fillna0_frame(4) [OF a1(1) i1 j1] .
    also have "rows ?t1 ! i ! j = rows ?t0 ! i ! j"
      using a1(5) [OF j _ i] n1 dn by simp
    finally show ?thesis by (simp add: self')
  qed
qed

lemma display_name_cong:
  "reporter_dict a = reporter_dict b \<Longrightarrow> display_name a r = display_name b r"
  by (simp add: display_name_def)

lemma hiv_loop_frame:
  assumes "hiv_analysis_loop rnd self fluors = Inr self'" and "wf_df (df self)"
  shows "length (rows (df self')) = length (rows (df self))
       \<and> length (columns (df self)) \<le> length (columns (df self'))
       \<and> (\<forall>j<length (columns (df self)).
            columns (df self') ! j = columns (df self) ! j
          \<and> ((\<forall>r\<in>set fluors. columns (df self) ! j \<noteq> display_name self r @ '' DRM Percentage''
                              \<and> columns (df self) ! j \<noteq> display_name self r @ '' Call'')
              \<longrightarrow> (\<forall>i<length (rows (df self)).
                     rows (df self') ! i ! j
                       = (if fluors = [] then rows (df self) ! i ! j
                          else fill0 (rows (df self) ! i ! j)))))"
  using assms
proof (induction fluors arbitrary: self)
  case Nil
  then show ?case by simp
next
  case (Cons fluor rest)
  from Cons.prems(1) obtain self1 where
    step: "hiv_analysis_step rnd self fluor = Inr self1"
    and loop: "hiv_analysis_loop rnd self1 rest = Inr self'"
    by (auto split: sum.splits)
  note f = hiv_step_frame [OF step Cons.prems(2)]
  note ih = Cons.IH [OF loop f(1)]
  have dn: "display_name self1 r = display_name self r" for r
    using f(4) by (rule display_name_cong)
  have rows_eq: "length (rows (df self')) = length (rows (df self))" using ih f(2) by simp
  have cols_le: "length (columns (df self)) \<le> length (columns (df self'))" using ih f(3) by simp
  have main: "columns (df self') ! j = columns (df self) ! j
          \<and> ((\<forall>r\<in>set (fluor # rest). columns (df self) ! j \<noteq> display_name self r @ '' DRM Percentage''
                              \<and> columns (df self) ! j \<noteq> display_name self r @ '' Call'')
              \<longrightarrow> (\<forall>i<length (rows (df self)).
                     rows (df self') ! i ! j = fill0 (rows (df self) ! i ! j)))"
    if j: "j < length (columns (df self))" for j
  proof -
    have j1: "j < length (columns (df self1))" using j f(3) by simp
    have c1: "columns (df self1) ! j = columns (df self) ! j" using f(6) [OF j] .
    from ih j1 have c2: "columns (df self') ! j = columns (df self1) ! j" by blast
    have cells: "rows (df self') ! i ! j = fill0 (rows (df self) ! i ! j)"
      if fresh: "\<forall>r\<in>set (fluor # rest). columns (df self) ! j \<noteq> display_name self r @ '' DRM Percentage''
                              \<and> columns (df self) ! j \<noteq> display_name self r @ '' Call''"
        and i: "i < length (rows (df self))" for i
    proof -
      have s1: "rows (df self1) ! i ! j = fill0 (rows (df self) ! i ! j)"
        using f(7) [OF j _ _ i] fresh by simp
      have fresh1: "\<forall>r\<in>set rest. columns (df self1) ! j \<noteq> display_name self1 r @ '' DRM Percentage''
                              \<and> columns (df self1) ! j \<noteq> display_name self1 r @ '' Call''"
        using fresh c1 dn by simp
      have i1: "i < length (rows (df self1))" using i f(2) by simp
      from ih j1 fresh1 i1
      have "rows (df self') ! i ! j
              = (if rest = [] then rows (df self1) ! i ! j else fill0 (rows (df self1) ! i ! j))"
        by blast
      then show ?thesis using s1 by (simp add: fill0_idem)
    qed
    show ?thesis using c1 c2 cells by simp
  qed
  show ?case using rows_eq cols_le main by simp
qed

text \<open>
  \<open>hiv_analysis\<close> returns on every table it can analyse: a pass finds its two
  quantity columns, divides them cell by cell, calls every row, and leaves the
  quantity columns of the later passes numeric.
\<close>

lemma quantity_not_percentage: "x @ '' Quantity'' \<noteq> y @ '' DRM Percentage''"
proof
  assume "x @ '' Quantity'' = y @ '' DRM Percentage''"
  then have "last (x @ '' Quantity'') = last (y @ '' DRM Percentage'')" by simp
  then show False by simp
qed

lemma quantity_not_call: "x @ '' Quantity'' \<noteq> y @ '' Call''"
proof
  assume "x @ '' Quantity'' = y @ '' Call''"
  then have "last (x @ '' Quantity'') = last (y @ '' Call'')" by simp
  then show False by simp
qed

lemma df_assign_index:
  "index_of label (columns t) = Some k \<Longrightarrow> index_of label (columns (df_assign t name vals)) = Some k"
  by (auto simp: df_assign_def index_of_append split: option.splits)

lemma df_assign_read:
  assumes wf: "wf_df t" and len: "length vals = length (rows t)"
  shows "\<exists>k. index_of name (columns (df_assign t name vals)) = Some k
           \<and> (\<forall>i<length (rows t). rows (df_assign t name vals) ! i ! k = vals ! i)"
proof (cases "index_of name (columns t)")
  case None
  have "\<forall>i<length (rows t). length (rows t ! i) = length (columns t)"
    using wf by (simp add: wf_df_def list_all_length)
  then show ?thesis using None len index_of_append_new [OF None]
    by (auto simp: df_assign_def nth_append)
next
  case (Some k)
  from index_of_Some [OF Some] have "k < length (columns t)" by simp
  moreover have "\<forall>i<length (rows t). length (rows t ! i) = length (columns t)"
    using wf by (simp add: wf_df_def list_all_length)
  ultimately show ?thesis using Some len by (auto simp: df_assign_def)
qed

lemma series_div_returns:
  assumes "list_all (\<lambda>c. \<not> is_str c) xs" and "list_all (\<lambda>c. \<not> is_str c) ys"
  shows "\<exists>zs. series_div rnd xs ys = Inr zs \<and> list_all (\<lambda>c. \<not> is_str c) zs"
  using assms
proof (induction xs arbitrary: ys)
  case Nil
  then show ?case by (simp add: series_div_def)
next
  case (Cons x xs)
  show ?case
  proof (cases ys)
    case Nil
    then show ?thesis by (simp add: series_div_def)
  next
    case (Cons y ys')
    from Cons.prems(1) obtain a where a: "x = Num a" by (cases x) auto
    from Cons.prems(2) Cons obtain b where b: "y = Num b" by (cases y) auto
    from Cons.IH [of ys'] Cons.prems Cons obtain zs where
      zs: "series_div rnd xs ys' = Inr zs" "list_all (\<lambda>c. \<not> is_str c) zs" by auto
    then show ?thesis using a b Cons by (simp add: series_div_def)
  qed
qed

lemma hiv_result_returns:
  assumes "dict_get row col = Inr (Num p)" and "dict_get row (ic self @ '' Quantity'') = Inr (Num q)"
  shows "\<exists>c. hiv_result self row col = Inr c"
  using assms by (auto simp: hiv_result_def split: bool.splits)

lemma fill0_num: "\<not> is_str c \<Longrightarrow> \<exists>x. fill0 c = Num x"
  by (cases c) (auto simp: fill0_def)

lemma fill0_not_str: "\<not> is_str c \<Longrightarrow> \<not> is_str (fill0 c)"
  by (cases c) (auto simp: fill0_def)

lemma numeric_col_cells:
  assumes "numeric_col t label" and "wf_df t"
  shows "\<exists>k. index_of label (columns t) = Some k \<and> k < length (columns t)
            \<and> columns t ! k = label
            \<and> (\<forall>i<length (rows t). \<not> is_str (rows t ! i ! k))"
proof -
  from assms(1) obtain k where k: "index_of label (columns t) = Some k"
    and cells: "list_all (\<lambda>r. \<not> is_str (cell_at r k)) (rows t)"
    by (auto simp: numeric_col_def split: option.splits)
  from index_of_Some [OF k] have kl: "k < length (columns t)" and ck: "columns t ! k = label" by auto
  have "\<not> is_str (rows t ! i ! k)" if i: "i < length (rows t)" for i
  proof -
    have "length (rows t ! i) = length (columns t)" using assms(2) i by (rule wf_df_row)
    then have "cell_at (rows t ! i) k = rows t ! i ! k" using kl by (simp add: cell_at_def)
    moreover have "\<not> is_str (cell_at (rows t ! i) k)" using cells i by (simp add: list_all_length)
    ultimately show ?thesis by simp
  qed
  then show ?thesis using k kl ck by blast
qed

lemma numeric_colI:
  assumes "index_of label (columns t) = Some k" and "wf_df t"
    and "\<forall>i<length (rows t). \<not> is_str (rows t ! i ! k)"
  shows "numeric_col t label"
proof -
  from index_of_Some [OF assms(1)] have kl: "k < length (columns t)" by simp
  have "\<not> is_str (cell_at (rows t ! i) k)" if i: "i < length (rows t)" for i
  proof -
    have "length (rows t ! i) = length (columns t)" using assms(2) i by (rule wf_df_row)
    then have "cell_at (rows t ! i) k = rows t ! i ! k" using kl by (simp add: cell_at_def)
    then show ?thesis using assms(3) i by simp
  qed
  then show ?thesis using assms(1) by (simp add: numeric_col_def list_all_length)
qed

lemma numeric_col_df_col:
  assumes "numeric_col t label"
  shows "\<exists>cs. df_col t label = Inr cs \<and> list_all (\<lambda>c. \<not> is_str c) cs"
  using assms by (auto simp: numeric_col_def df_col_def list_all_iff split: option.splits)

lemma hiv_step_returns:
  assumes wf: "wf_df (df self)"
    and name: "map_of (reporter_dict self) fluor = Some name"
    and nq: "numeric_col (df self) (fluor @ '' Quantity'')"
    and nic: "numeric_col (df self) (ic self @ '' Quantity'')"
  shows "\<exists>self'. hiv_analysis_step rnd self fluor = Inr self'"
proof -
  let ?P = "name @ '' DRM Percentage''"
  from numeric_col_df_col [OF nq] obtain num where
    num: "df_col (df self) (fluor @ '' Quantity'') = Inr num" "list_all (\<lambda>c. \<not> is_str c) num" by blast
  from numeric_col_df_col [OF nic] obtain den where
    den: "df_col (df self) (ic self @ '' Quantity'') = Inr den" "list_all (\<lambda>c. \<not> is_str c) den" by blast
  from series_div_returns [OF num(2) den(2)] obtain pct where
    pct: "series_div rnd num den = Inr pct" "list_all (\<lambda>c. \<not> is_str c) pct" by blast
  have lp: "length pct = length (rows (df self))"
    using map_err_Inr [OF pct(1) [unfolded series_div_def]] df_col_length [OF num(1)] df_col_length [OF den(1)]
    by simp
  let ?t1 = "df_assign (df self) ?P pct"
  let ?t2 = "fillna0 ?t1"
  note a1 = df_assign_frame [OF wf lp, where name = ?P]
  have wf2: "wf_df ?t2" using a1(1) by (rule fillna0_frame(1))
  have c2: "columns ?t2 = columns ?t1" by (rule fillna0_frame(3))
  have r1: "length (rows ?t1) = length (rows (df self))" using a1(2) .
  have r2: "length (rows ?t2) = length (rows (df self))" using a1(2) by (simp add: fillna0_frame(2))
  from df_assign_read [OF wf lp, of ?P] obtain k where
    k: "index_of ?P (columns ?t1) = Some k"
    and kv: "\<forall>i<length (rows (df self)). rows ?t1 ! i ! k = pct ! i" by blast
  from index_of_Some [OF k] have kl: "k < length (columns ?t1)" by simp
  from numeric_col_cells [OF nic wf] obtain q where
    q: "index_of (ic self @ '' Quantity'') (columns (df self)) = Some q"
    and ql: "q < length (columns (df self))"
    and qc: "columns (df self) ! q = ic self @ '' Quantity''"
    and qv: "\<forall>i<length (rows (df self)). \<not> is_str (rows (df self) ! i ! q)" by blast
  have q1: "index_of (ic self @ '' Quantity'') (columns ?t1) = Some q" using q by (rule df_assign_index)
  have ql1: "q < length (columns ?t1)" using ql a1(3) by simp
  have each: "\<exists>c. hiv_result self (row_series ?t2 r) ?P = Inr c" if r: "r \<in> set (rows ?t2)" for r
  proof -
    from r obtain i where i: "i < length (rows ?t2)" "r = rows ?t2 ! i" by (auto simp: in_set_conv_nth)
    have i0: "i < length (rows (df self))" using i(1) r2 by simp
    have i1: "i < length (rows ?t1)" using i0 r1 by simp
    have lr: "length r = length (columns ?t2)" using wf_df_row [OF wf2 i(1)] i(2) by simp
    have pk: "r ! k = fill0 (pct ! i)"
      using fillna0_frame(4) [OF a1(1) i1 kl] kv i0 i(2) by simp
    have "\<not> is_str (pct ! i)" using pct(2) i0 lp by (simp add: list_all_length)
    then obtain p where p: "r ! k = Num p" using pk fill0_num by metis
    have "rows ?t1 ! i ! q = rows (df self) ! i ! q"
      using a1(5) [OF ql _ i0] qc quantity_not_percentage by simp
    then have "r ! q = fill0 (rows (df self) ! i ! q)"
      using fillna0_frame(4) [OF a1(1) i1 ql1] i(2) by simp
    then obtain x where x: "r ! q = Num x" using qv i0 fill0_num by metis
    have g1: "dict_get (row_series ?t2 r) ?P = Inr (Num p)"
      using map_of_zip_index [OF k, of r] lr c2 p by (simp add: dict_get_def row_series_def)
    have g2: "dict_get (row_series ?t2 r) (ic self @ '' Quantity'') = Inr (Num x)"
      using map_of_zip_index [OF q1, of r] lr c2 x by (simp add: dict_get_def row_series_def)
    from hiv_result_returns [OF g1 g2] show ?thesis .
  qed
  then obtain calls where
    calls: "map_err (\<lambda>r. hiv_result self (row_series ?t2 r) ?P) (rows ?t2) = Inr calls"
    using map_err_returns [of "rows ?t2" "\<lambda>r. hiv_result self (row_series ?t2 r) ?P"] by blast
  show ?thesis
    using name num(1) den(1) pct(1) calls
    by (simp add: hiv_analysis_step_def dict_get_def Let_def)
qed

lemma hiv_step_fields:
  assumes "hiv_analysis_step rnd self fluor = Inr self'"
  shows "ic self' = ic self" and "reporter_dict self' = reporter_dict self"
  using assms by (auto simp: hiv_analysis_step_def Let_def split: sum.splits)

lemma hiv_step_keeps_numeric:
  assumes step: "hiv_analysis_step rnd self fluor = Inr self'" and wf: "wf_df (df self)"
    and n: "numeric_col (df self) (x @ '' Quantity'')"
  shows "numeric_col (df self') (x @ '' Quantity'')"
proof -
  note f = hiv_step_frame [OF step wf]
  from numeric_col_cells [OF n wf] obtain k where
    k: "index_of (x @ '' Quantity'') (columns (df self)) = Some k"
    and kl: "k < length (columns (df self))"
    and kc: "columns (df self) ! k = x @ '' Quantity''"
    and kv: "\<forall>i<length (rows (df self)). \<not> is_str (rows (df self) ! i ! k)" by blast
  have pre: "take (length (columns (df self))) (columns (df self')) = columns (df self)"
    using f(3) f(6) by (auto simp: list_eq_iff_nth_eq)
  then have "columns (df self') = columns (df self) @ drop (length (columns (df self))) (columns (df self'))"
    by (metis append_take_drop_id)
  then have k': "index_of (x @ '' Quantity'') (columns (df self')) = Some k"
    using index_of_append [OF k] by metis
  have "\<not> is_str (rows (df self') ! i ! k)" if i: "i < length (rows (df self'))" for i
  proof -
    have i0: "i < length (rows (df self))" using i f(2) by simp
    have "rows (df self') ! i ! k = fill0 (rows (df self) ! i ! k)"
      using f(7) [OF kl _ _ i0] kc quantity_not_percentage quantity_not_call by simp
    then show ?thesis using kv i0 fill0_not_str by simp
  qed
  then show ?thesis using numeric_colI [OF k' f(1)] by blast
qed

lemma hiv_loop_returns:
  assumes "wf_df (df self)"
    and "numeric_col (df self) (ic self @ '' Quantity'')"
    and "\<forall>r\<in>set fluors. map_of (reporter_dict self) r \<noteq> None \<and> numeric_col (df self) (r @ '' Quantity'')"
  shows "\<exists>self'. hiv_analysis_loop rnd self fluors = Inr self'"
  using assms
proof (induction fluors arbitrary: self)
  case Nil
  then show ?case by simp
next
  case (Cons fluor rest)
  from Cons.prems(3) obtain name where name: "map_of (reporter_dict self) fluor = Some name" by auto
  have nq: "numeric_col (df self) (fluor @ '' Quantity'')" using Cons.prems(3) by simp
  from hiv_step_returns [OF Cons.prems(1) name nq Cons.prems(2)] obtain self1 where
    step: "hiv_analysis_step rnd self fluor = Inr self1" by blast
  note f = hiv_step_frame [OF step Cons.prems(1)]
  note g = hiv_step_fields [OF step]
  have a: "numeric_col (df self1) (ic self1 @ '' Quantity'')"
    using hiv_step_keeps_numeric [OF step Cons.prems(1) Cons.prems(2)] g(1) by simp
  have b: "\<forall>r\<in>set rest. map_of (reporter_dict self1) r \<noteq> None \<and> numeric_col (df self1) (r @ '' Quantity'')"
    using Cons.prems(3) g(2) hiv_step_keeps_numeric [OF step Cons.prems(1)] by simp
  from Cons.IH [OF f(1) a b] obtain self' where "hiv_analysis_loop rnd self1 rest = Inr self'" by blast
  then show ?case using step by simp
qed

lemma hiv_analysis_returns:
  assumes "hiv_table_ok self"
  shows "\<exists>self'. hiv_analysis rnd self = Inr self'"
  using assms hiv_loop_returns [of self "tl (reporter_list self)" rnd]
  by (auto simp: hiv_table_ok_def hiv_analysis_def list_all_iff)

text \<open>The example table, analysed.\<close>

lemma hiv_analysis_an0: "hiv_analysis rnd an0 = Inr an0_analysed"
  by (simp add: an0_def an0_analysed_def hiv_analysis_def hiv_analysis_step_def dict_get_def df_col_def
        cell_at_def series_div_def df_assign_def fillna0_def fill0_def row_series_def hiv_result_def)

text \<open>
  C4. The well of the example whose internal control has quantity exactly 0 and
  whose reporter has quantity 100: \<open>hiv_analysis\<close> raises nothing and calls the
  well \<open>Negative\<close>, but the percentage it stores is positive infinity, which
  \<open>fillna(0)\<close> leaves as it is; only the quotient \<open>0 / 0\<close> of the second well
  is stored as 0. No quotient of the example is rounded, so this holds for every
  rounding.
\<close>

theorem hiv_zero_control_percentage:
  "hiv_analysis rnd an0 = Inr an0_analysed
   \<and> df_col (df an0) ''IC Quantity'' = Inr [Num (Fin 0), Num (Fin 0)]
   \<and> df_col (df an0) ''VQ Quantity'' = Inr [Num (Fin 100), Num (Fin 0)]
   \<and> df_col (df an0_analysed) ''K103N DRM Percentage'' = Inr [Num PInf, Num (Fin 0)]
   \<and> df_col (df an0_analysed) ''K103N Call'' = Inr [Str ''Negative'', Str ''Negative'']"
  using hiv_analysis_an0 [of rnd]
  by (simp add: an0_def an0_analysed_def df_col_def cell_at_def)

text \<open>
  C9. On a table it can analyse, with at least one reporter after the internal
  control, \<open>hiv_analysis\<close> returns, and every column of the table it was given,
  other than a column carrying the label of a percentage or call column, keeps
  its label and position, and each of its cells is the old cell with a missing
  value replaced by 0: this holds for every such column, whichever reporter or
  text field it belongs to, so these columns are not left unchanged.
\<close>

theorem hiv_analysis_fillna_whole_table:
  assumes "hiv_table_ok self"
    and "tl (reporter_list self) \<noteq> []"
    and "j < length (columns (df self))"
    and "columns (df self) ! j \<notin> set (appended_names self)"
    and "i < length (rows (df self))"
  shows "\<exists>self'. hiv_analysis rnd self = Inr self'
       \<and> columns (df self') ! j = columns (df self) ! j
       \<and> rows (df self') ! i ! j
           = (if rows (df self) ! i ! j = Num NaN then Num (Fin 0) else rows (df self) ! i ! j)"
proof -
  from hiv_analysis_returns [OF assms(1)] obtain self' where ok: "hiv_analysis rnd self = Inr self'"
    by blast
  have wf: "wf_df (df self)" using assms(1) by (simp add: hiv_table_ok_def)
  have fresh: "\<forall>r\<in>set (tl (reporter_list self)).
      columns (df self) ! j \<noteq> display_name self r @ '' DRM Percentage''
    \<and> columns (df self) ! j \<noteq> display_name self r @ '' Call''"
    using assms(4) by (auto simp: appended_names_def)
  from hiv_loop_frame [OF ok [unfolded hiv_analysis_def] wf] assms(3) fresh assms(5) assms(2)
  have "columns (df self') ! j = columns (df self) ! j
      \<and> rows (df self') ! i ! j = fill0 (rows (df self) ! i ! j)"
    by auto
  then show ?thesis using ok by (simp add: fill0_def)
qed

text \<open>The missing sample name of well A1 of the example becomes the number 0.\<close>

theorem hiv_analysis_fillna_whole_table_witness:
  "hiv_table_ok an0
   \<and> tl (reporter_list an0) \<noteq> []
   \<and> hiv_analysis Fin an0 = Inr an0_analysed
   \<and> columns (df an0) ! 1 = ''Sample Name''
   \<and> rows (df an0) ! 0 ! 1 = Num NaN
   \<and> columns (df an0_analysed) ! 1 = ''Sample Name''
   \<and> rows (df an0_analysed) ! 0 ! 1 = Num (Fin 0)"
proof -
  have ok: "hiv_table_ok an0"
    by (simp add: hiv_table_ok_def wf_df_def numeric_col_def cell_at_def an0_def)
  have t: "tl (reporter_list an0) \<noteq> []" by (simp add: an0_def)
  have j: "1 < length (columns (df an0))" by (simp add: an0_def)
  have i: "0 < length (rows (df an0))" by (simp add: an0_def)
  have n: "columns (df an0) ! 1 \<notin> set (appended_names an0)"
    by (simp add: an0_def appended_names_def display_name_def)
  from hiv_analysis_fillna_whole_table [OF ok t j n i, of Fin] hiv_analysis_an0 [of Fin] ok t
  show ?thesis by (simp add: an0_def an0_analysed_def)
qed

section \<open>csv_to_df\<close>

lemma csv_loop_blank:
  "list_all isblank lines \<Longrightarrow> csv_to_df_loop flag lines b acc = acc"
  by (induction lines arbitrary: b acc) (simp_all add: Let_def)

lemma csv_loop_noflag:
  "\<forall>line\<in>set lines. flag \<notin> set line \<Longrightarrow> csv_to_df_loop flag lines False acc = acc"
  by (induction lines arbitrary: acc) (simp_all add: Let_def)

text \<open>
  C5, as the code has it. The first buffered row is removed and becomes the
  column header of the rows after it. When it was the only row buffered the
  result is a table with that header and no rows, and nothing is raised. When no
  row was buffered at all, which is the case for an input of blank lines only
  and for an input in which no field equals the flag, no table is returned: the
  removal of the header raises IndexError.
\<close>

theorem csv_to_df_header:
  "(csv_to_df_loop results_flag reader False [] = header # data
      \<longrightarrow> csv_to_df reader results_flag = DataFrame data header)
   \<and> (csv_to_df_loop results_flag reader False [] = [header]
      \<longrightarrow> csv_to_df reader results_flag = Inr \<lparr>columns = header, rows = []\<rparr>)
   \<and> (list_all isblank reader \<or> (\<forall>line\<in>set reader. results_flag \<notin> set line)
      \<longrightarrow> csv_to_df reader results_flag = Inl IndexError)"
proof (intro conjI impI)
  assume "csv_to_df_loop results_flag reader False [] = header # data"
  then show "csv_to_df reader results_flag = DataFrame data header"
    by (simp add: csv_to_df_def)
next
  assume "csv_to_df_loop results_flag reader False [] = [header]"
  then show "csv_to_df reader results_flag = Inr \<lparr>columns = header, rows = []\<rparr>"
    by (simp add: csv_to_df_def DataFrame_def)
next
  assume "list_all isblank reader \<or> (\<forall>line\<in>set reader. results_flag \<notin> set line)"
  then have "csv_to_df_loop results_flag reader False [] = []"
    using csv_loop_blank csv_loop_noflag by blast
  then show "csv_to_df reader results_flag = Inl IndexError"
    by (simp add: csv_to_df_def)
qed

theorem csv_to_df_header_witness:
  "csv_to_df_loop ''[Results]'' [[''meta''], [''[Results]''], [''Well'', ''CT''], [''1'', ''20'']] False []
     = [''Well'', ''CT''] # [[''1'', ''20'']]
   \<and> csv_to_df [[''meta''], [''[Results]''], [''Well'', ''CT''], [''1'', ''20'']] ''[Results]''
     = Inr \<lparr>columns = [''Well'', ''CT''], rows = [[Str ''1'', Str ''20'']]\<rparr>
   \<and> csv_to_df_loop ''[Results]'' [[''[Results]''], [''Well'', ''CT'']] False [] = [[''Well'', ''CT'']]
   \<and> csv_to_df [[''[Results]''], [''Well'', ''CT'']] ''[Results]''
     = Inr \<lparr>columns = [''Well'', ''CT''], rows = []\<rparr>
   \<and> list_all isblank [[], ['' '']]
   \<and> csv_to_df [[], ['' '']] ''[Results]'' = Inl IndexError"
  using csv_to_df_header [of "''[Results]''" "[[''meta''], [''[Results]''], [''Well'', ''CT''], [''1'', ''20'']]"
          "[''Well'', ''CT'']" "[[''1'', ''20'']]"]
        csv_to_df_header [of "''[Results]''" "[[''[Results]''], [''Well'', ''CT'']]" "[''Well'', ''CT'']" "[]"]
        csv_to_df_header [of "''[Results]''" "[[], ['' '']]" "[]" "[]"]
  by (simp add: isblank_def is_space_def DataFrame_def pad_row_def)

text \<open>
  The claim fails at these inputs: a header with no data row after it gives an
  empty table instead of an error, and a blank input, like one without the
  flag, gives IndexError instead of an empty table.
\<close>

theorem csv_to_df_no_format_error:
  "csv_to_df [[''[Results]''], [''Well'', ''CT'']] ''[Results]''
     = Inr \<lparr>columns = [''Well'', ''CT''], rows = []\<rparr>
   \<and> csv_to_df [[], ['' '']] ''[Results]'' = Inl IndexError
   \<and> csv_to_df [[''Well'', ''CT''], [''1'', ''20'']] ''[Results]'' = Inl IndexError"
  by (simp add: csv_to_df_def isblank_def is_space_def DataFrame_def)

section \<open>extract_header\<close>

lemma header_loop_keeps:
  "set head \<subseteq> set (extract_header_loop flag stop lines b head)"
proof (induction lines arbitrary: b head)
  case Nil
  then show ?case by simp
next
  case (Cons line lines)
  let ?b2 = "header_flag flag line (header_stop stop line b)"
  have "set head \<subseteq> set (if ?b2 then head @ [line] else head)" by auto
  also have "\<dots> \<subseteq> set (extract_header_loop flag stop lines ?b2 (if ?b2 then head @ [line] else head))"
    by (rule Cons.IH)
  finally show ?case by (simp add: Let_def)
qed

lemma header_loop_flagged:
  assumes "truthy flag" and "l \<in> set lines" and "str_in (the flag) (py_str l)"
  shows "l \<in> set (extract_header_loop flag stop lines b head)"
  using assms(2)
proof (induction lines arbitrary: b head)
  case Nil
  then show ?case by simp
next
  case (Cons line lines)
  let ?b2 = "header_flag flag line (header_stop stop line b)"
  let ?h = "if ?b2 then head @ [line] else head"
  show ?case
  proof (cases "l = line")
    case True
    then have "?b2" using assms(1,3) by (simp add: header_flag_def)
    then have "l \<in> set ?h" using True by simp
    then have "l \<in> set (extract_header_loop flag stop lines ?b2 ?h)"
      using header_loop_keeps by blast
    then show ?thesis by (simp add: Let_def)
  next
    case False
    then have "l \<in> set lines" using Cons.prems by simp
    then have "l \<in> set (extract_header_loop flag stop lines ?b2 ?h)" by (rule Cons.IH)
    then show ?thesis by (simp add: Let_def)
  qed
qed

text \<open>
  C7, as the code has it. For every line the checks run in this order: a stop
  match (a blank line when no stop token is given) turns capturing off, then a
  flag match turns it on, then the line is appended if capturing is on. The flag
  check comes last, so a line that matches the flag is captured whether or not
  it also matches the stop condition, and capturing stays on after it.
\<close>

theorem extract_header_order:
  "extract_header_loop flag stop (line # lines) headbool head =
     (let stopped = (if truthy stop then str_in (the stop) (py_str line) else isblank line);
          flagged = (truthy flag \<and> str_in (the flag) (py_str line));
          capturing = (if flagged then True else if stopped then False else headbool)
      in extract_header_loop flag stop lines capturing (if capturing then head @ [line] else head))
   \<and> (truthy flag \<and> l \<in> set reader \<and> str_in (the flag) (py_str l)
        \<longrightarrow> l \<in> set (extract_header reader flag stop))"
proof
  show "extract_header_loop flag stop (line # lines) headbool head =
     (let stopped = (if truthy stop then str_in (the stop) (py_str line) else isblank line);
          flagged = (truthy flag \<and> str_in (the flag) (py_str line));
          capturing = (if flagged then True else if stopped then False else headbool)
      in extract_header_loop flag stop lines capturing (if capturing then head @ [line] else head))"
    by (simp add: Let_def header_stop_def header_flag_def)
  show "truthy flag \<and> l \<in> set reader \<and> str_in (the flag) (py_str l)
        \<longrightarrow> l \<in> set (extract_header reader flag stop)"
    using header_loop_flagged by (simp add: extract_header_def)
qed

theorem extract_header_order_witness:
  "truthy (Some ''Experiment'')
   \<and> str_in ''Experiment'' (py_str [''Experiment Quantitative''])
   \<and> str_in ''Quantitative'' (py_str [''Experiment Quantitative''])
   \<and> [''Experiment Quantitative'']
        \<in> set (extract_header [[''Run''], [''Experiment Quantitative''], [''Name'']]
                 (Some ''Experiment'') (Some ''Quantitative''))"
proof -
  have a: "truthy (Some ''Experiment'')" by simp
  have b: "str_in ''Experiment'' (py_str [''Experiment Quantitative''])"
    by code_simp
  have c: "str_in ''Quantitative'' (py_str [''Experiment Quantitative''])"
    by code_simp
  have d: "[''Experiment Quantitative''] \<in> set [[''Run''], [''Experiment Quantitative''], [''Name'']]"
    by simp
  from extract_header_order [of "Some ''Experiment''" "Some ''Quantitative''" "[]" "[]" False "[]"
         "[''Experiment Quantitative'']" "[[''Run''], [''Experiment Quantitative''], [''Name'']]"]
  have "[''Experiment Quantitative'']
        \<in> set (extract_header [[''Run''], [''Experiment Quantitative''], [''Name'']]
                 (Some ''Experiment'') (Some ''Quantitative''))"
    using a b d by simp
  with a b c show ?thesis by simp
qed

text \<open>
  The claim fails here: the second line matches both the stop token and the
  flag, and it is captured, as is the line after it.
\<close>

theorem extract_header_stop_and_flag_line_captured:
  "str_in ''Experiment'' (py_str [''Experiment Quantitative''])
   \<and> str_in ''Quantitative'' (py_str [''Experiment Quantitative''])
   \<and> extract_header [[''Experiment Name''], [''Experiment Quantitative''], [''Name'']]
        (Some ''Experiment'') (Some ''Quantitative'')
      = [[''Experiment Name''], [''Experiment Quantitative''], [''Name'']]"
  by code_simp

section \<open>Joining the per-reporter tables\<close>

text \<open>
  Selecting columns that start with the well column keeps the well keys; the
  join keeps the well column of the left table where it is.
\<close>

lemma positions_first:
  assumes "index_of x xs = Some i"
  shows "\<exists>rest. positions xs x = i # rest"
proof -
  from index_of_Some [OF assms] have i: "i < length xs" "xs ! i = x" "\<forall>j<i. xs ! j \<noteq> x" by auto
  have split: "[0..<length xs] = [0..<i] @ i # [Suc i..<length xs]"
    using i(1) by (metis less_imp_add_positive upt_add_eq_append upt_conv_Cons zero_le add_0)
  have "filter (\<lambda>k. xs ! k = x) [0..<i] = []" using i(3) by (auto simp: filter_empty_conv)
  then show ?thesis unfolding positions_def split using i(2) by simp
qed

lemma loc_cols_wf: "loc_cols t names = Inr s \<Longrightarrow> wf_df s"
  by (auto simp: loc_cols_def wf_df_def list_all_iff Let_def split: if_splits)

lemma loc_cols_ok: "(\<exists>s. loc_cols t names = Inr s) = (set names \<subseteq> set (columns t))"
  by (auto simp: loc_cols_def list_ex_iff Let_def)

lemma loc_cols_wells:
  assumes "loc_cols t (''Well'' # names) = Inr s"
  shows "index_of ''Well'' (columns s) = Some 0" and "wells s = wells t"
proof -
  from assms have mem: "''Well'' \<in> set (columns t)"
    by (auto simp: loc_cols_def list_ex_iff split: if_splits)
  then obtain i where i: "index_of ''Well'' (columns t) = Some i" using index_of_member by metis
  from positions_first [OF i] obtain rest where rest: "positions (columns t) ''Well'' = i # rest" by auto
  from index_of_Some [OF i] have ci: "columns t ! i = ''Well''" by simp
  let ?idxs = "i # rest @ concat (map (positions (columns t)) names)"
  have s: "s = \<lparr>columns = map (\<lambda>k. columns t ! k) ?idxs, rows = map (\<lambda>r. map (cell_at r) ?idxs) (rows t)\<rparr>"
    using assms mem rest by (auto simp: loc_cols_def Let_def split: if_splits)
  show "index_of ''Well'' (columns s) = Some 0" using ci by (simp add: s)
  then show "wells s = wells t"
    using i by (simp add: wells_def df_col_def s cell_at_def)
qed

lemma suffix_x_not_well: "c @ ''_x'' \<noteq> ''Well''"
proof
  assume "c @ ''_x'' = ''Well''"
  then have "last (c @ ''_x'') = last ''Well''" by simp
  then show False by simp
qed

lemma index_of_map_append:
  assumes "\<And>c. (f c = x) = (c = x)" and "x \<in> set xs"
  shows "index_of x (map f xs @ ys) = index_of x xs"
  using assms(2)
proof (induction xs)
  case Nil
  then show ?case by simp
next
  case (Cons a xs)
  show ?case
  proof (cases "a = x")
    case True
    have "f x = x" using assms(1) [of x] by simp
    then show ?thesis using True by simp
  next
    case False
    then have "x \<in> set xs" using Cons.prems by auto
    moreover have "x \<noteq> f a" using assms(1) [of a] False by auto
    ultimately show ?thesis using Cons.IH False by simp
  qed
qed

lemma index_of_merge_columns:
  assumes "index_of ''Well'' lcols = Some i"
  shows "index_of ''Well'' (merge_columns lcols rcols j) = Some i"
proof -
  have mem: "''Well'' \<in> set lcols" using assms by (rule index_of_in_set)
  have f: "((if c \<noteq> ''Well'' \<and> c \<in> set lcols \<and> c \<in> set (drop_at j rcols) then c @ ''_x'' else c) = ''Well'')
             = (c = ''Well'')" for c
    using suffix_x_not_well by auto
  show ?thesis
    unfolding merge_columns_def Let_def
    using index_of_map_append [where f = "\<lambda>c. if c \<noteq> ''Well'' \<and> c \<in> set lcols \<and> c \<in> set (drop_at j rcols)
                                               then c @ ''_x'' else c", OF f mem] assms
    by simp
qed

lemma pd_merge_ok:
  "(\<exists>m. pd_merge l r = Inr m)
     = (''Well'' \<in> set (columns l) \<and> ''Well'' \<in> set (columns r) \<and> \<not> keys_refused (wells l) (wells r))"
proof
  assume "\<exists>m. pd_merge l r = Inr m"
  then show "''Well'' \<in> set (columns l) \<and> ''Well'' \<in> set (columns r) \<and> \<not> keys_refused (wells l) (wells r)"
    by (auto simp: pd_merge_def wells_def df_col_def split: option.splits if_splits dest: index_of_in_set)
next
  assume a: "''Well'' \<in> set (columns l) \<and> ''Well'' \<in> set (columns r) \<and> \<not> keys_refused (wells l) (wells r)"
  then obtain i j where "index_of ''Well'' (columns l) = Some i" "index_of ''Well'' (columns r) = Some j"
    using index_of_member by metis
  then show "\<exists>m. pd_merge l r = Inr m" using a by (simp add: pd_merge_def wells_def df_col_def)
qed

lemma length_drop_at: "j < length xs \<Longrightarrow> length (drop_at j xs) = length xs - 1"
  by (auto simp: drop_at_def)

lemma pd_merge_wells:
  assumes m: "pd_merge l r = Inr m" and wl: "wf_df l"
  shows "''Well'' \<in> set (columns m)"
    and "set (wells m) = set (wells l) \<inter> set (wells r)"
    and "wf_df r \<Longrightarrow> wf_df m"
proof -
  from m obtain i j where i: "index_of ''Well'' (columns l) = Some i"
    and j: "index_of ''Well'' (columns r) = Some j"
    and meq: "m = \<lparr>columns = merge_columns (columns l) (columns r) j,
                   rows = merge_rows (rows l) i (rows r) j\<rparr>"
    by (auto simp: pd_merge_def split: option.splits if_splits)
  have im: "index_of ''Well'' (columns m) = Some i"
    using index_of_merge_columns [OF i] by (simp add: meq)
  then show "''Well'' \<in> set (columns m)" by (rule index_of_in_set)
  have il: "i < length (columns l)" using index_of_Some [OF i] by simp
  have jl: "j < length (columns r)" using index_of_Some [OF j] by simp
  have len: "lr \<in> set (rows l) \<Longrightarrow> length lr = length (columns l)" for lr
    using wl by (simp add: wf_df_def list_all_iff)
  have cell: "lr \<in> set (rows l) \<Longrightarrow> cell_at (lr @ x) i = cell_at lr i" for lr x
    using len [of lr] il by (simp add: cell_at_def nth_append)
  have wm: "wells m = map (\<lambda>row. cell_at row i) (merge_rows (rows l) i (rows r) j)"
    using im by (simp add: wells_def df_col_def meq)
  have wl': "wells l = map (\<lambda>row. cell_at row i) (rows l)"
    using i by (simp add: wells_def df_col_def)
  have wr': "wells r = map (\<lambda>row. cell_at row j) (rows r)"
    using j by (simp add: wells_def df_col_def)
  show "set (wells m) = set (wells l) \<inter> set (wells r)"
  proof (intro equalityI subsetI)
    fix w assume "w \<in> set (wells m)"
    then obtain lr rr where lr: "lr \<in> set (rows l)" and rr: "rr \<in> set (rows r)"
      and k: "cell_at rr j = cell_at lr i" and w: "w = cell_at (lr @ drop_at j rr) i"
      unfolding wm by (auto simp: merge_rows_def)
    have "w = cell_at lr i" using w cell [OF lr] by simp
    then show "w \<in> set (wells l) \<inter> set (wells r)"
      using lr rr k unfolding wl' wr' by (metis IntI image_eqI set_map)
  next
    fix w assume "w \<in> set (wells l) \<inter> set (wells r)"
    then obtain lr rr where lr: "lr \<in> set (rows l)" and rr: "rr \<in> set (rows r)"
      and w1: "w = cell_at lr i" and w2: "w = cell_at rr j"
      unfolding wl' wr' by auto
    have "lr @ drop_at j rr \<in> set (merge_rows (rows l) i (rows r) j)"
      using lr rr w1 w2 by (auto simp: merge_rows_def)
    then have "cell_at (lr @ drop_at j rr) i \<in> set (wells m)"
      unfolding wm by (metis image_eqI set_map)
    then show "w \<in> set (wells m)" using cell [OF lr] w1 by simp
  qed
  show "wf_df m" if wr: "wf_df r"
  proof -
    have lenr: "rr \<in> set (rows r) \<Longrightarrow> length rr = length (columns r)" for rr
      using wr by (simp add: wf_df_def list_all_iff)
    show ?thesis
      using len lenr jl
      by (auto simp: wf_df_def list_all_iff meq merge_rows_def merge_columns_def Let_def length_drop_at)
  qed
qed

lemma pd_merge_has_well:
  assumes "pd_merge l r = Inr m"
  shows "''Well'' \<in> set (columns m)"
proof -
  from assms obtain i j where i: "index_of ''Well'' (columns l) = Some i"
    and meq: "columns m = merge_columns (columns l) (columns r) j"
    by (auto simp: pd_merge_def split: option.splits if_splits)
  from index_of_merge_columns [OF i] have "index_of ''Well'' (columns m) = Some i"
    by (simp add: meq)
  then show ?thesis by (rule index_of_in_set)
qed

lemma alike_not_refused:
  assumes "list_all P lk \<and> list_all P rk" and "P = is_str \<or> P = (\<lambda>c. \<not> is_str c)"
  shows "\<not> keys_refused lk rk"
  using assms by (auto simp: keys_refused_def numeric_key_def text_key_def list_all_iff list_ex_iff)

text \<open>
  The loop of \<open>summarize\<close> after its first pass: the wells it keeps, and that it
  returns when every table has the columns asked of it and the well columns are
  all text or all numbers.
\<close>

lemma summarize_columns_well:
  "\<exists>names. summarize_columns mtype division fluor b = ''Well'' # names"
  by (simp add: summarize_columns_def drop_at_def Let_def)


lemma summarize_loop_returns:
  assumes "''Well'' \<in> set (columns s)" and "wf_df s"
    and "P = is_str \<or> P = (\<lambda>c. \<not> is_str c)"
    and "list_all P (wells s)"
    and "list_all (\<lambda>(f, u). set (summarize_columns mtype division f False) \<subseteq> set (columns u)
                              \<and> list_all P (wells u)) dfs"
  shows "\<exists>s'. summarize_loop mtype division dfs (Some s) = Inr s'"
  using assms(1,2,4,5)
proof (induction dfs arbitrary: s)
  case Nil
  then show ?case by simp
next
  case (Cons ft rest)
  obtain fluor t where ft: "ft = (fluor, t)" by (cases ft)
  obtain names where names: "summarize_columns mtype division fluor False = ''Well'' # names"
    using summarize_columns_well by blast
  from Cons.prems(4) have sub: "set (summarize_columns mtype division fluor False) \<subseteq> set (columns t)"
    and pt: "list_all P (wells t)"
    and rest: "list_all (\<lambda>(f, u). set (summarize_columns mtype division f False) \<subseteq> set (columns u)
                              \<and> list_all P (wells u)) rest"
    unfolding ft by auto
  from sub obtain part where part: "loc_cols t (summarize_columns mtype division fluor False) = Inr part"
    using loc_cols_ok by blast
  note lw = loc_cols_wells [OF part [unfolded names]]
  have wp: "''Well'' \<in> set (columns part)" using lw(1) by (rule index_of_in_set)
  have wfp: "wf_df part" using part by (rule loc_cols_wf)
  have "\<not> keys_refused (wells s) (wells part)"
    using alike_not_refused [of P "wells s" "wells part"] Cons.prems(3) pt lw(2) assms(3) by simp
  then obtain m where m: "pd_merge s part = Inr m"
    using pd_merge_ok [of s part] Cons.prems(1) wp by blast
  note pm = pd_merge_wells [OF m Cons.prems(2)]
  have "list_all P (wells m)" using pm(2) Cons.prems(3) by (auto simp: list_all_iff)
  from Cons.IH [OF pm(1) pm(3) [OF wfp] this rest]
  show ?case using part m unfolding ft by simp
qed


lemma summarize_returns:
  assumes req: "required_columns_present mtype division df_dict"
    and P: "P = is_str \<or> P = (\<lambda>c. \<not> is_str c)"
    and alike: "list_all (\<lambda>(f, t). list_all P (wells t)) df_dict"
  shows "\<exists>s'. summarize mtype division df_dict = Inr s'"
proof -
  from req obtain fluor t rest where d: "df_dict = (fluor, t) # rest"
    by (cases df_dict) auto
  obtain names where names: "summarize_columns mtype division fluor True = ''Well'' # names"
    using summarize_columns_well by blast
  from req have sub: "set (summarize_columns mtype division fluor True) \<subseteq> set (columns t)"
    and later: "list_all (\<lambda>(f, u). set (summarize_columns mtype division f False) \<subseteq> set (columns u)) rest"
    unfolding d by auto
  from sub obtain s0 where s0: "loc_cols t (summarize_columns mtype division fluor True) = Inr s0"
    using loc_cols_ok by blast
  note lw = loc_cols_wells [OF s0 [unfolded names]]
  have w: "''Well'' \<in> set (columns s0)" using lw(1) by (rule index_of_in_set)
  have p0: "list_all P (wells s0)" using alike lw(2) unfolding d by simp
  have both: "list_all (\<lambda>(f, u). set (summarize_columns mtype division f False) \<subseteq> set (columns u)
                              \<and> list_all P (wells u)) rest"
    using later alike unfolding d by (auto simp: list_all_iff)
  from summarize_loop_returns [OF w loc_cols_wf [OF s0] P p0 both]
  show ?thesis using s0 unfolding d by (simp add: summarize_def)
qed






section \<open>parse_rgq\<close>

text \<open>Every path in \<open>used_filepaths\<close> is a selected path that matches a reporter.\<close>

lemma rgq_fluors_used:
  "rgq_fluors fs p rs t st = Inr st' \<Longrightarrow>
     set (used_filepaths st') \<subseteq> set (used_filepaths st) \<union> (if list_ex (file_matches p) rs then {p} else {})"
proof (induction rs arbitrary: t st)
  case Nil
  then show ?case by simp
next
  case (Cons r rs)
  show ?case
  proof (cases "file_matches p r")
    case False
    with Cons.prems have "rgq_fluors fs p rs t st = Inr st'" by simp
    from Cons.IH [OF this] show ?thesis by (auto split: if_splits)
  next
    case True
    from Cons.prems True obtain t1 st1 where
      rec: "rgq_fluors fs p rs t1 st1 = Inr st'"
      and u: "used_filepaths st1 = used_filepaths st @ [p]"
      by (auto simp: Let_def split: if_splits sum.splits option.splits)
    from Cons.IH [OF rec] u True show ?thesis by (auto split: if_splits)
  qed
qed

lemma rgq_files_used:
  "rgq_files fs cutoff rdict paths st = Inr st' \<Longrightarrow>
     set (used_filepaths st') \<subseteq> set (used_filepaths st) \<union> set (matched_files rdict paths)"
proof (induction paths arbitrary: st)
  case Nil
  then show ?case by simp
next
  case (Cons p paths)
  from Cons.prems obtain t st1 where
    one: "rgq_fluors fs p rdict t st = Inr st1"
    and rest: "rgq_files fs cutoff rdict paths st1 = Inr st'"
    by (auto split: sum.splits)
  from rgq_fluors_used [OF one] Cons.IH [OF rest]
  show ?case by (auto simp: matched_files_def split: if_splits)
qed

text \<open>
  C6. Whenever the set of selected files differs from the set of selected files
  that match a configured reporter by name, \<open>parse_rgq\<close> ends in an error,
  whatever the files hold and however many there are.
\<close>

theorem parse_rgq_file_identity:
  assumes "set (matched_files rdict results_filepaths) \<noteq> set results_filepaths"
  shows "\<exists>e. parse_rgq fs cutoff rdict results_filepaths = Inl e"
proof (rule ccontr)
  assume "\<not> (\<exists>e. parse_rgq fs cutoff rdict results_filepaths = Inl e)"
  then obtain st where ok: "parse_rgq fs cutoff rdict results_filepaths = Inr st"
    by (cases "parse_rgq fs cutoff rdict results_filepaths") auto
  then have loop: "rgq_files fs cutoff rdict results_filepaths
             \<lparr>st_first_loop = True, st_results = None, st_head = [], used_filepaths = []\<rparr> = Inr st"
    and same: "sort results_filepaths = sort (used_filepaths st)"
    by (auto simp: parse_rgq_def split: sum.splits if_splits)
  from same have "set results_filepaths = set (used_filepaths st)"
    by (metis set_sort)
  moreover from rgq_files_used [OF loop]
  have "set (used_filepaths st) \<subseteq> set (matched_files rdict results_filepaths)" by simp
  moreover have "set (matched_files rdict results_filepaths) \<subseteq> set results_filepaths"
    by (auto simp: matched_files_def)
  ultimately show False using assms by auto
qed

text \<open>
  Two reporters and two files, one of which matches no reporter: the count is
  right and the parse ends the program.
\<close>

theorem parse_rgq_file_identity_witness:
  "length [''run Green.csv'', ''run Other.csv''] = length rgq_reporters
   \<and> set (matched_files rgq_reporters [''run Green.csv'', ''run Other.csv''])
        \<noteq> set [''run Green.csv'', ''run Other.csv'']
   \<and> parse_rgq rgq_files0 (Fin 35) rgq_reporters [''run Green.csv'', ''run Other.csv'']
        = Inl SystemExit"
proof -
  have m: "matched_files rgq_reporters [''run Green.csv'', ''run Other.csv''] = [''run Green.csv'']"
    by code_simp
  have a: "set (matched_files rgq_reporters [''run Green.csv'', ''run Other.csv''])
        \<noteq> set [''run Green.csv'', ''run Other.csv'']"
    unfolding m by simp
  have b: "parse_rgq rgq_files0 (Fin 35) rgq_reporters [''run Green.csv'', ''run Other.csv'']
        = Inl SystemExit"
    by code_simp
  from parse_rgq_file_identity [OF a, of rgq_files0 "Fin 35"] a b
  show ?thesis by (simp add: rgq_reporters_def)
qed

section \<open>parse_qs: the largest delta-Rn\<close>

lemma fl_max_fold:
  "m \<noteq> NaN \<Longrightarrow> NaN \<notin> set xs \<Longrightarrow>
   foldl fl_max m xs \<in> set (m # xs) \<and> (\<forall>y \<in> set (m # xs). \<not> fl_lt (foldl fl_max m xs) y)"
proof (induction xs arbitrary: m)
  case Nil
  then show ?case by (simp add: fl_lt_irrefl)
next
  case (Cons x xs)
  have m': "fl_max m x \<noteq> NaN" using Cons.prems by (auto simp: fl_max_def)
  from Cons.IH [OF m'] Cons.prems
  have ih: "foldl fl_max (fl_max m x) xs \<in> set (fl_max m x # xs)"
    "\<forall>y \<in> set (fl_max m x # xs). \<not> fl_lt (foldl fl_max (fl_max m x) xs) y" by auto
  let ?r = "foldl fl_max (fl_max m x) xs"
  have ge: "\<not> fl_lt ?r (fl_max m x)" using ih(2) by simp
  have xn: "x \<noteq> NaN" and mn: "m \<noteq> NaN" using Cons.prems by auto
  have "\<not> fl_lt ?r m \<and> \<not> fl_lt ?r x"
  proof (cases "fl_lt m x")
    case True
    then have a: "\<not> fl_lt ?r x" using ge by (simp add: fl_max_def)
    have "\<not> fl_lt ?r m"
    proof
      assume "fl_lt ?r m"
      from this True have "fl_lt ?r x" by (rule fl_lt_trans)
      with a show False by simp
    qed
    with a show ?thesis by simp
  next
    case False
    then have a: "\<not> fl_lt ?r m" using ge by (simp add: fl_max_def)
    have "\<not> fl_lt ?r x"
    proof
      assume rx: "fl_lt ?r x"
      from fl_lt_total [OF xn mn] False consider "x = m" | "fl_lt x m" by auto
      then show False
      proof cases
        case 1 with rx a show False by simp
      next
        case 2 from rx 2 have "fl_lt ?r m" by (rule fl_lt_trans)
        with a show False by simp
      qed
    qed
    with a show ?thesis by simp
  qed
  moreover have "?r \<in> set (m # x # xs)" using ih(1) by (auto simp: fl_max_def split: if_splits)
  ultimately show ?case using ih(2) by simp
qed

lemma series_max_greatest:
  "(if \<exists>x\<in>set xs. x \<noteq> NaN
    then series_max xs \<noteq> NaN \<and> series_max xs \<in> set xs \<and> (\<forall>x\<in>set xs. \<not> fl_lt (series_max xs) x)
    else series_max xs = NaN)"
proof (cases "filter (\<lambda>x. x \<noteq> NaN) xs")
  case Nil
  then have "\<not> (\<exists>x\<in>set xs. x \<noteq> NaN)" by (auto simp: filter_empty_conv)
  then show ?thesis using Nil by (simp add: series_max_def)
next
  case (Cons y ys)
  have sub: "set (y # ys) = {x \<in> set xs. x \<noteq> NaN}" using Cons [symmetric] by auto
  then have y: "y \<noteq> NaN" and ys: "NaN \<notin> set ys" by auto
  from fl_max_fold [OF y ys]
  have r: "foldl fl_max y ys \<in> set (y # ys)" "\<forall>v\<in>set (y # ys). \<not> fl_lt (foldl fl_max y ys) v" by auto
  have sm: "series_max xs = foldl fl_max y ys" using Cons by (simp add: series_max_def)
  have ex: "\<exists>x\<in>set xs. x \<noteq> NaN" using sub by auto
  have nan: "\<not> fl_lt a NaN" for a by (cases a) simp_all
  have "\<forall>x\<in>set xs. \<not> fl_lt (series_max xs) x"
  proof
    fix x assume "x \<in> set xs"
    show "\<not> fl_lt (series_max xs) x"
    proof (cases "x = NaN")
      case True then show ?thesis using nan by simp
    next
      case False
      with \<open>x \<in> set xs\<close> have "x \<in> set (y # ys)" using sub by blast
      with r(2) show ?thesis unfolding sm by blast
    qed
  qed
  moreover have "series_max xs \<in> set xs \<and> series_max xs \<noteq> NaN" using r(1) sub unfolding sm by blast
  ultimately show ?thesis using ex by simp
qed

lemma rename_cols_rows: "rows (rename_cols t d) = rows t"
  by (simp add: rename_cols_def)

lemma parse_qs_fluor_max:
  assumes "parse_qs_fluor rdict division t fluor = Inr (part, m)"
  shows "\<exists>name ir ib k xs.
      dict_get rdict fluor = Inr name
    \<and> index_of ''Reporter'' (columns t) = Some ir
    \<and> rows part = filter (\<lambda>r. cell_at r ir = Str fluor) (rows t)
    \<and> index_of ''Baseline End'' (columns part) = Some ib
    \<and> index_of (fluor @ '' dRn'') (columns part) = Some k
    \<and> map Num xs
        = map (\<lambda>r. cell_at r k)
            (filter (\<lambda>r. cell_ge (cell_at r ib) (if name = ''Internal Control'' then Fin 5 else Fin 10)
                           = Inr True) (rows part))
    \<and> m = series_max xs"
proof -
  let ?nm = "fluor @ '' dRn''"
  from assms obtain t0 name g where
    t0: "by_reporter t fluor = Inr t0"
    and part: "part = (if division = ''hiv''
                       then rename_cols (rename_cols t0 (qs_rename fluor)) [(''Quantity'', fluor @ '' Quantity'')]
                       else rename_cols t0 (qs_rename fluor))"
    and name: "dict_get rdict fluor = Inr name"
    and g: "get_max part (if name = ''Internal Control'' then Fin 5 else Fin 10) ?nm = Inr g"
    and fm: "float_max g ?nm = Inr m"
    by (auto simp: parse_qs_fluor_def Let_def split: sum.splits)
  let ?thr = "if name = ''Internal Control'' then Fin 5 else Fin 10"
  from t0 obtain ir where ir: "index_of ''Reporter'' (columns t) = Some ir"
    and t0eq: "t0 = t\<lparr>rows := filter (\<lambda>r. cell_at r ir = Str fluor) (rows t)\<rparr>"
    by (auto simp: by_reporter_def split: option.splits)
  have rp: "rows part = filter (\<lambda>r. cell_at r ir = Str fluor) (rows t)"
    by (simp add: part rename_cols_rows t0eq)
  from g obtain bs keep where
    bs: "df_col part ''Baseline End'' = Inr bs"
    and keep: "map_err (\<lambda>b. cell_ge b ?thr) bs = Inr keep"
    and loc: "loc_cols (part\<lparr>rows := map fst (filter snd (zip (rows part) keep))\<rparr>) [?nm] = Inr g"
    by (auto simp: get_max_def split: sum.splits)
  from bs obtain ib where ib: "index_of ''Baseline End'' (columns part) = Some ib"
    and bseq: "bs = map (\<lambda>r. cell_at r ib) (rows part)"
    by (auto simp: df_col_def split: option.splits)
  have keep': "map_err (\<lambda>r. cell_ge (cell_at r ib) ?thr) (rows part) = Inr keep"
    using keep unfolding bseq map_err_map .
  let ?kept = "filter (\<lambda>r. cell_ge (cell_at r ib) ?thr = Inr True) (rows part)"
  have kept: "map fst (filter snd (zip (rows part) keep)) = ?kept"
    using filter_by_keep [OF keep'] .
  from loc have mem: "?nm \<in> set (columns part)"
    by (auto simp: loc_cols_def list_ex_iff split: if_splits)
  then obtain k where k: "index_of ?nm (columns part) = Some k" using index_of_member by metis
  from positions_first [OF k] obtain rest where pos: "positions (columns part) ?nm = k # rest" by auto
  have geq: "g = \<lparr>columns = map (\<lambda>i. columns part ! i) (k # rest),
                  rows = map (\<lambda>r. map (cell_at r) (k # rest)) ?kept\<rparr>"
    using loc mem pos kept by (auto simp: loc_cols_def Let_def split: if_splits)
  from fm have one: "length (columns g) = 1" by (auto simp: float_max_def split: if_splits)
  then have rest: "rest = []" by (simp add: geq)
  have ck: "columns part ! k = ?nm" using index_of_Some [OF k] by simp
  from fm one obtain cs xs where cs: "df_col g ?nm = Inr cs" and xs: "map_err num_of cs = Inr xs"
    and m: "m = series_max xs"
    by (auto simp: float_max_def split: if_splits sum.splits)
  have "cs = map (\<lambda>r. cell_at r k) ?kept"
    using cs ck by (simp add: df_col_def geq rest cell_at_def comp_def)
  moreover have "cs = map Num xs" using xs by (rule map_err_num_of)
  ultimately have "map Num xs = map (\<lambda>r. cell_at r k) ?kept" by simp
  with name ir rp ib k m show ?thesis by blast
qed

lemma parse_qs_loop_entries:
  assumes "parse_qs_loop rdict division t fluors rd md = Inr (rd', md')"
  shows "(\<forall>f\<in>set fluors. \<exists>part m. parse_qs_fluor rdict division t f = Inr (part, m)
                              \<and> map_of md' f = Some m \<and> map_of rd' f = Some part)
       \<and> (\<forall>f. f \<notin> set fluors \<longrightarrow> map_of md' f = map_of md f \<and> map_of rd' f = map_of rd f)"
  using assms
proof (induction fluors arbitrary: rd md)
  case Nil
  then show ?case by simp
next
  case (Cons fluor fluors)
  from Cons.prems obtain part m where
    one: "parse_qs_fluor rdict division t fluor = Inr (part, m)"
    and rec: "parse_qs_loop rdict division t fluors (AList.update fluor part rd) (AList.update fluor m md)
               = Inr (rd', md')"
    by (auto split: sum.splits)
  note ih = Cons.IH [OF rec]
  have here: "\<exists>part m. parse_qs_fluor rdict division t fluor = Inr (part, m)
                              \<and> map_of md' fluor = Some m \<and> map_of rd' fluor = Some part"
  proof (cases "fluor \<in> set fluors")
    case True
    with ih show ?thesis by blast
  next
    case False
    with ih have "map_of md' fluor = map_of (AList.update fluor m md) fluor"
      "map_of rd' fluor = map_of (AList.update fluor part rd) fluor" by auto
    then show ?thesis using one by (simp add: update_conv')
  qed
  have other: "map_of md' f = map_of md f \<and> map_of rd' f = map_of rd f" if "f \<notin> set (fluor # fluors)" for f
  proof -
    from that have "f \<notin> set fluors" "f \<noteq> fluor" by auto
    with ih have "map_of md' f = map_of (AList.update fluor m md) f"
      "map_of rd' f = map_of (AList.update fluor part rd) f" by auto
    then show ?thesis using \<open>f \<noteq> fluor\<close> by (simp add: update_conv')
  qed
  show ?case using ih here other by auto
qed

lemma parse_qs_example:
  "parse_qs ''QuantStudio 5'' ''vhf'' qs_reporters qs_table
     = Inr (qs_summary, [(''VIC'', Fin 3), (''FAM'', Fin 7)])"
  by code_simp

text \<open>The labels of a reporter's partial table.\<close>

lemma dRn_not_well_position: "f @ '' dRn'' \<noteq> ''Well Position''"
proof
  assume "f @ '' dRn'' = ''Well Position''"
  then have "take 2 (rev (f @ '' dRn'')) = take 2 (rev ''Well Position'')" by simp
  then show False by simp
qed

lemma qs_label_baseline: "(qs_label division f c = ''Baseline End'') = (c = ''Baseline End'')"
  by (auto simp: qs_label_def qs_rename_def Let_def dest!: append_eq_last split: if_splits)

lemma qs_label_dRn:
  "(qs_label division f c = f @ '' dRn'') = (c = ''Delta Rn (last cycle)'' \<or> c = f @ '' dRn'')"
  using dRn_not_well_position [of f]
  by (auto simp: qs_label_def qs_rename_def Let_def dest!: append_eq_last split: if_splits)

lemma qs_label_well: "(qs_label division f c = ''Well'') = (c = ''Well Position'')"
  by (auto simp: qs_label_def qs_rename_def Let_def dest!: append_eq_last split: if_splits)

lemma qs_label_values:
  "qs_label division f ''Sample Name'' = ''Sample Name''"
  "qs_label division f ''CT'' = f @ '' CT''"
  "qs_label division f ''Cq Conf'' = f @ '' Cq Conf''"
  "qs_label division f ''Delta Rn (last cycle)'' = f @ '' dRn''"
  "qs_label ''hiv'' f ''Quantity'' = f @ '' Quantity''"
  by (simp_all add: qs_label_def qs_rename_def)

lemma qs_label_well_position: "qs_label division f ''Well Position'' = ''Well''"
  by (simp add: qs_label_def qs_rename_def)

lemma positions_length: "length (positions xs y) = length (filter (\<lambda>c. c = y) xs)"
proof -
  have "filter (\<lambda>c. c = y) xs = filter (\<lambda>c. c = y) (map (nth xs) [0..<length xs])"
    by (simp add: map_nth)
  also have "\<dots> = map (nth xs) (filter (\<lambda>i. xs ! i = y) [0..<length xs])"
    by (simp add: filter_map comp_def)
  finally show ?thesis by (simp add: positions_def)
qed

lemma part_columns:
  "columns (if division = ''hiv''
            then rename_cols (rename_cols t (qs_rename f)) [(''Quantity'', f @ '' Quantity'')]
            else rename_cols t (qs_rename f))
     = map (qs_label division f) (columns t)"
  by (auto simp: rename_cols_def qs_label_def Let_def split: option.splits)

lemma part_rows:
  "rows (if division = ''hiv''
         then rename_cols (rename_cols t (qs_rename f)) [(''Quantity'', f @ '' Quantity'')]
         else rename_cols t (qs_rename f))
     = rows t"
  by (simp add: rename_cols_def)

text \<open>
  \<open>parse_qs\<close> returns on every results table it can split: each reporter's pass
  returns, the passes fill \<open>results_dict\<close> in configured order, and
  \<open>summarize\<close> finds its columns in every partial table and text in every well
  column.
\<close>

lemma map_err_cell_ge_returns:
  "list_all (\<lambda>c. \<not> is_str c) cs \<Longrightarrow> \<exists>keep. map_err (\<lambda>b. cell_ge b thr) cs = Inr keep"
proof (induction cs)
  case Nil
  then show ?case by simp
next
  case (Cons c cs)
  then obtain keep where "map_err (\<lambda>b. cell_ge b thr) cs = Inr keep" by auto
  moreover from Cons.prems obtain x where "c = Num x" by (cases c) auto
  ultimately show ?case by simp
qed

lemma map_err_num_of_returns:
  "list_all (\<lambda>c. \<not> is_str c) cs \<Longrightarrow> \<exists>xs. map_err num_of cs = Inr xs"
proof (induction cs)
  case Nil
  then show ?case by simp
next
  case (Cons c cs)
  then obtain xs where "map_err num_of cs = Inr xs" by auto
  moreover from Cons.prems obtain x where "c = Num x" by (cases c) auto
  ultimately show ?case by simp
qed

lemma numeric_col_index:
  assumes "numeric_col t label"
  shows "\<exists>k. index_of label (columns t) = Some k \<and> (\<forall>r\<in>set (rows t). \<not> is_str (cell_at r k))"
  using assms by (auto simp: numeric_col_def list_all_iff split: option.splits)

lemma parse_qs_fluor_returns:
  assumes ir: "index_of ''Reporter'' (columns t) = Some ir"
    and name: "map_of rdict fluor = Some name"
    and one: "length (filter (\<lambda>c. c = ''Delta Rn (last cycle)'' \<or> c = fluor @ '' dRn'') (columns t)) = 1"
    and nb: "numeric_col t ''Baseline End''"
    and nd: "numeric_col t ''Delta Rn (last cycle)''"
  shows "\<exists>part m. parse_qs_fluor rdict division t fluor = Inr (part, m)"
proof -
  let ?nm = "fluor @ '' dRn''"
  let ?t0 = "t\<lparr>rows := filter (\<lambda>r. cell_at r ir = Str fluor) (rows t)\<rparr>"
  define part where "part = (if division = ''hiv''
               then rename_cols (rename_cols ?t0 (qs_rename fluor)) [(''Quantity'', fluor @ '' Quantity'')]
               else rename_cols ?t0 (qs_rename fluor))"
  define thr where "thr = (if name = ''Internal Control'' then Fin 5 else Fin 10)"
  have t0: "by_reporter t fluor = Inr ?t0" using ir by (simp add: by_reporter_def)
  have pc: "columns part = map (qs_label division fluor) (columns t)"
    unfolding part_def using part_columns [of division ?t0 fluor] by simp
  have pr: "rows part = filter (\<lambda>r. cell_at r ir = Str fluor) (rows t)"
    unfolding part_def using part_rows [of division ?t0 fluor] by simp
  from numeric_col_index [OF nb] obtain ib where
    ib: "index_of ''Baseline End'' (columns t) = Some ib"
    and ibv: "\<forall>r\<in>set (rows t). \<not> is_str (cell_at r ib)" by blast
  from numeric_col_index [OF nd] obtain kd where
    kd: "index_of ''Delta Rn (last cycle)'' (columns t) = Some kd"
    and kdv: "\<forall>r\<in>set (rows t). \<not> is_str (cell_at r kd)" by blast
  have "index_of ''Baseline End'' (map (qs_label division fluor) (columns t))
          = index_of ''Baseline End'' (columns t)"
    by (rule index_of_map_iff) (rule qs_label_baseline)
  then have ibp: "index_of ''Baseline End'' (columns part) = Some ib"
    using ib pc by simp
  have bs: "df_col part ''Baseline End'' = Inr (map (\<lambda>r. cell_at r ib) (rows part))"
    using ibp by (simp add: df_col_def)
  have "list_all (\<lambda>c. \<not> is_str c) (map (\<lambda>r. cell_at r ib) (rows part))"
    using ibv unfolding pr by (auto simp: list_all_iff)
  from map_err_cell_ge_returns [OF this, of thr] obtain keep where
    keep: "map_err (\<lambda>b. cell_ge b thr) (map (\<lambda>r. cell_at r ib) (rows part)) = Inr keep" by blast
  define kept where "kept = map fst (filter snd (zip (rows part) keep))"
  have kept_sub: "set kept \<subseteq> set (rows t)"
  proof
    fix r assume "r \<in> set kept"
    then have "r \<in> set (rows part)" unfolding kept_def by (auto dest: set_zip_leftD)
    then show "r \<in> set (rows t)" unfolding pr by simp
  qed
  have "length (positions (columns part) ?nm)
          = length (filter (\<lambda>c. qs_label division fluor c = ?nm) (columns t))"
    unfolding positions_length pc by (rule filter_map_length)
  also have "\<dots> = length (filter (\<lambda>c. c = ''Delta Rn (last cycle)'' \<or> c = ?nm) (columns t))"
    by (simp only: qs_label_dRn)
  finally have cnt: "length (positions (columns part) ?nm) = 1" using one by simp
  have kdl: "kd < length (columns t)" and kdc: "columns t ! kd = ''Delta Rn (last cycle)''"
    using index_of_Some [OF kd] by auto
  have ck: "columns part ! kd = ?nm" using kdl kdc unfolding pc by (simp add: qs_label_values)
  have kdl': "kd < length (columns part)" using kdl pc by simp
  have kd_pos: "kd \<in> set (positions (columns part) ?nm)"
    using kdl' ck by (simp add: positions_def)
  from cnt obtain k where pos: "positions (columns part) ?nm = [k]"
    by (cases "positions (columns part) ?nm") auto
  then have kk: "k = kd" using kd_pos by simp
  have mem: "?nm \<in> set (columns part)" using kdl' ck nth_mem by metis
  define g where "g = \<lparr>columns = [?nm], rows = map (\<lambda>r. [cell_at r kd]) kept\<rparr>"
  have loc: "loc_cols (part\<lparr>rows := kept\<rparr>) [?nm] = Inr g"
    using mem pos kk ck by (simp add: loc_cols_def Let_def g_def list_ex_iff)
  have gm: "get_max part thr ?nm = Inr g"
    using bs keep loc by (simp add: get_max_def kept_def)
  have cs: "df_col g ?nm = Inr (map (\<lambda>r. cell_at r kd) kept)"
    by (simp add: df_col_def cell_at_def comp_def g_def)
  have "list_all (\<lambda>c. \<not> is_str c) (map (\<lambda>r. cell_at r kd) kept)"
    using kdv kept_sub by (auto simp: list_all_iff)
  from map_err_num_of_returns [OF this] obtain xs where
    xs: "map_err num_of (map (\<lambda>r. cell_at r kd) kept) = Inr xs" by blast
  have fm: "float_max g ?nm = Inr (series_max xs)"
    using cs xs by (simp add: float_max_def g_def)
  have "parse_qs_fluor rdict division t fluor = Inr (part, series_max xs)"
    unfolding parse_qs_fluor_def Let_def
    using t0 name gm fm by (simp add: dict_get_def part_def [symmetric] thr_def [symmetric])
  then show ?thesis by blast
qed

lemma parse_qs_loop_returns:
  assumes "\<forall>f\<in>set fluors. \<exists>part m. parse_qs_fluor rdict division t f = Inr (part, m)"
    and "distinct fluors" and "set fluors \<inter> fst ` set rd = {}"
  shows "\<exists>md'. parse_qs_loop rdict division t fluors rd md
           = Inr (rd @ map (\<lambda>f. (f, fst (projr (parse_qs_fluor rdict division t f)))) fluors, md')"
  using assms
proof (induction fluors arbitrary: rd md)
  case Nil
  then show ?case by simp
next
  case (Cons f fluors)
  from Cons.prems(1) obtain part m where one: "parse_qs_fluor rdict division t f = Inr (part, m)"
    by auto
  have fresh: "f \<notin> fst ` set rd" using Cons.prems(3) by auto
  have upd: "AList.update f part rd = rd @ [(f, part)]" using fresh by (rule update_fresh)
  have a: "\<forall>f\<in>set fluors. \<exists>part m. parse_qs_fluor rdict division t f = Inr (part, m)"
    using Cons.prems(1) by simp
  have b: "distinct fluors" using Cons.prems(2) by simp
  have c: "set fluors \<inter> fst ` set (rd @ [(f, part)]) = {}"
    using Cons.prems(2,3) by auto
  from Cons.IH [OF a b c, of "AList.update f m md"] obtain md' where
    "parse_qs_loop rdict division t fluors (rd @ [(f, part)]) (AList.update f m md)
       = Inr ((rd @ [(f, part)]) @ map (\<lambda>f. (f, fst (projr (parse_qs_fluor rdict division t f)))) fluors, md')"
    by blast
  then show ?case using one upd by simp
qed

lemma parse_qs_fluor_part:
  assumes "parse_qs_fluor rdict division t f = Inr (part, m)"
  shows "\<exists>ir. index_of ''Reporter'' (columns t) = Some ir
            \<and> columns part = map (qs_label division f) (columns t)
            \<and> rows part = filter (\<lambda>r. cell_at r ir = Str f) (rows t)"
proof -
  from assms obtain t0 where t0: "by_reporter t f = Inr t0"
    and part: "part = (if division = ''hiv''
                       then rename_cols (rename_cols t0 (qs_rename f)) [(''Quantity'', f @ '' Quantity'')]
                       else rename_cols t0 (qs_rename f))"
    by (auto simp: parse_qs_fluor_def Let_def split: sum.splits)
  from t0 obtain ir where ir: "index_of ''Reporter'' (columns t) = Some ir"
    and t0eq: "t0 = t\<lparr>rows := filter (\<lambda>r. cell_at r ir = Str f) (rows t)\<rparr>"
    by (auto simp: by_reporter_def split: option.splits)
  have "columns part = map (qs_label division f) (columns t)"
    unfolding part using part_columns [of division t0 f] t0eq by simp
  moreover have "rows part = filter (\<lambda>r. cell_at r ir = Str f) (rows t)"
    unfolding part using part_rows [of division t0 f] t0eq by simp
  ultimately show ?thesis using ir by blast
qed

lemma summarize_columns_subset:
  "set (summarize_columns mtype division f b)
     \<subseteq> {''Well'', ''Sample Name'', f @ '' CT'', f @ '' Cq Conf'', f @ '' dRn''}
        \<union> (if division = ''hiv'' then {f @ '' Quantity''} else {})"
  by (auto simp: summarize_columns_def drop_at_def Let_def)

lemma required_columns_presentI:
  assumes "dfs \<noteq> []"
    and "\<forall>(f, u)\<in>set dfs. \<forall>b. set (summarize_columns mtype division f b) \<subseteq> set (columns u)"
  shows "required_columns_present mtype division dfs"
proof -
  from assms(1) obtain f u rest where d: "dfs = (f, u) # rest" by (cases dfs) auto
  have "set (summarize_columns mtype division f True) \<subseteq> set (columns u)"
    using assms(2) unfolding d by auto
  moreover have "set (summarize_columns mtype division g False) \<subseteq> set (columns v)"
    if "(g, v) \<in> set rest" for g v
    using assms(2) that unfolding d by fastforce
  ultimately show ?thesis unfolding d by (auto simp: list_all_iff)
qed

lemma part_has_columns:
  assumes cols: "columns part = map (qs_label division f) (columns t)"
    and have1: "list_all (\<lambda>c. c \<in> set (columns t)) [''Sample Name'', ''CT'', ''Cq Conf'']"
    and wp: "''Well Position'' \<in> set (columns t)"
    and dr: "''Delta Rn (last cycle)'' \<in> set (columns t)"
    and q: "division = ''hiv'' \<longrightarrow> ''Quantity'' \<in> set (columns t)"
  shows "set (summarize_columns mtype division f b) \<subseteq> set (columns part)"
proof -
  have img: "c \<in> set (columns t) \<Longrightarrow> qs_label division f c \<in> set (columns part)" for c
    unfolding cols by simp
  have "''Well'' \<in> set (columns part)" using img [OF wp] by (simp add: qs_label_well_position)
  moreover have "''Sample Name'' \<in> set (columns part)"
    using img [of "''Sample Name''"] have1 by (simp add: qs_label_values)
  moreover have "f @ '' CT'' \<in> set (columns part)"
    using img [of "''CT''"] have1 by (simp add: qs_label_values)
  moreover have "f @ '' Cq Conf'' \<in> set (columns part)"
    using img [of "''Cq Conf''"] have1 by (simp add: qs_label_values)
  moreover have "f @ '' dRn'' \<in> set (columns part)"
    using img [OF dr] by (simp add: qs_label_values)
  moreover have "division = ''hiv'' \<Longrightarrow> f @ '' Quantity'' \<in> set (columns part)"
    using img [of "''Quantity''"] q by (simp add: qs_label_values)
  ultimately show ?thesis
    using summarize_columns_subset [of mtype division f b] by (auto split: if_splits)
qed

lemma part_wells_text:
  assumes cols: "columns part = map (qs_label division f) (columns t)"
    and rws: "set (rows part) \<subseteq> set (rows t)"
    and tc: "text_col t ''Well Position''"
  shows "list_all is_str (wells part)"
proof -
  from tc obtain wi where wi: "index_of ''Well Position'' (columns t) = Some wi"
    and wv: "\<forall>r\<in>set (rows t). is_str (cell_at r wi)"
    by (auto simp: text_col_def list_all_iff split: option.splits)
  have "index_of ''Well'' (map (qs_label division f) (columns t)) = index_of ''Well Position'' (columns t)"
    by (rule index_of_map_iff) (rule qs_label_well)
  then have "index_of ''Well'' (columns part) = Some wi" using wi cols by simp
  then have "wells part = map (\<lambda>r. cell_at r wi) (rows part)" by (simp add: wells_def df_col_def)
  then show ?thesis using wv rws by (auto simp: list_all_iff)
qed

lemma reporter_check_index:
  "reporter_check t rdict = Inr u \<Longrightarrow> \<exists>ir. index_of ''Reporter'' (columns t) = Some ir"
  by (auto simp: reporter_check_def df_col_def split: option.splits sum.splits)

lemma parse_qs_returns:
  assumes "qs_table_ok division rdict t"
  shows "\<exists>summary max_dRn_dict. parse_qs mtype division rdict t = Inr (summary, max_dRn_dict)"
proof -
  from assms have ne: "rdict \<noteq> []" and dist: "distinct (map fst rdict)"
    and chk: "reporter_check t rdict = Inr ()"
    and have1: "list_all (\<lambda>c. c \<in> set (columns t)) [''Sample Name'', ''CT'', ''Cq Conf'']"
    and q: "division = ''hiv'' \<longrightarrow> ''Quantity'' \<in> set (columns t)"
    and nb: "numeric_col t ''Baseline End''"
    and nd: "numeric_col t ''Delta Rn (last cycle)''"
    and tc: "text_col t ''Well Position''"
    and one: "\<forall>(f, n)\<in>set rdict. length (filter (\<lambda>c. c = ''Delta Rn (last cycle)'' \<or> c = f @ '' dRn'')
                                      (columns t)) = 1"
    by (auto simp: qs_table_ok_def list_all_iff)
  from reporter_check_index [OF chk] obtain ir where ir: "index_of ''Reporter'' (columns t) = Some ir"
    by blast
  have each: "\<forall>f\<in>set (map fst rdict). \<exists>part m. parse_qs_fluor rdict division t f = Inr (part, m)"
  proof
    fix f assume "f \<in> set (map fst rdict)"
    then obtain n where fn: "(f, n) \<in> set rdict" by auto
    then have "map_of rdict f = Some n" using dist by simp
    moreover have "length (filter (\<lambda>c. c = ''Delta Rn (last cycle)'' \<or> c = f @ '' dRn'') (columns t)) = 1"
      using one fn by auto
    ultimately show "\<exists>part m. parse_qs_fluor rdict division t f = Inr (part, m)"
      using parse_qs_fluor_returns [OF ir _ _ nb nd] by blast
  qed
  define results_dict where
    "results_dict = map (\<lambda>f. (f, fst (projr (parse_qs_fluor rdict division t f)))) (map fst rdict)"
  from parse_qs_loop_returns [OF each dist, of "[]" "[]"] obtain md where
    loop: "parse_qs_loop rdict division t (map fst rdict) [] [] = Inr (results_dict, md)"
    unfolding results_dict_def by auto
  have wp: "''Well Position'' \<in> set (columns t)"
    using tc by (auto simp: text_col_def split: option.splits dest: index_of_in_set)
  have dr: "''Delta Rn (last cycle)'' \<in> set (columns t)"
    using nd by (auto simp: numeric_col_def split: option.splits dest: index_of_in_set)
  have parts: "columns u = map (qs_label division f) (columns t) \<and> set (rows u) \<subseteq> set (rows t)"
    if "(f, u) \<in> set results_dict" for f u
  proof -
    from that have f: "f \<in> set (map fst rdict)"
      and u: "u = fst (projr (parse_qs_fluor rdict division t f))"
      unfolding results_dict_def by auto
    from each f obtain part m where pm: "parse_qs_fluor rdict division t f = Inr (part, m)" by blast
    then have "u = part" using u by simp
    with parse_qs_fluor_part [OF pm] show ?thesis by auto
  qed
  have nonempty: "results_dict \<noteq> []" using ne by (simp add: results_dict_def)
  have req: "required_columns_present mtype division results_dict"
  proof (rule required_columns_presentI [OF nonempty], clarify)
    fix f u b x assume fu: "(f, u) \<in> set results_dict" and x: "x \<in> set (summarize_columns mtype division f b)"
    from parts [OF fu] have "columns u = map (qs_label division f) (columns t)" by simp
    from part_has_columns [OF this have1 wp dr q, of mtype b] x show "x \<in> set (columns u)" by blast
  qed
  have alike: "list_all (\<lambda>(f, u). list_all is_str (wells u)) results_dict"
  proof -
    have "list_all is_str (wells u)" if "(f, u) \<in> set results_dict" for f u
      using parts [OF that] part_wells_text [of u division f t] tc by blast
    then show ?thesis by (auto simp: list_all_iff)
  qed
  from summarize_returns [OF req _ alike] obtain summary where
    "summarize mtype division results_dict = Inr summary" by blast
  then show ?thesis using chk loop by (simp add: parse_qs_def)
qed

lemma qs_table_ok_example: "qs_table_ok ''vhf'' qs_reporters qs_table"
  by (simp add: qs_table_ok_def qs_reporters_def qs_table_def reporter_check_def df_col_def cell_at_def
        numeric_col_def text_col_def)

text \<open>
  C8, as the code has it. On every results table it can split, \<open>parse_qs\<close>
  returns, and the entry of \<open>max_dRn_dict\<close> for a configured reporter is the
  largest delta-Rn that is not missing among the rows of that reporter's partial
  table whose baseline end is greater than or equal to the threshold (NaN when
  there is no such value); the threshold is 5 when the reporter is the internal
  control and 10 otherwise. The code tells the internal control by its display
  name \<open>Internal Control\<close>; the statement is for a configuration in which the
  reporter \<open>control\<close> configured as internal control is the one that carries
  this name.
\<close>

theorem max_dRn_entry:
  assumes "qs_table_ok division rdict results_table"
    and "(fluor, name) \<in> set rdict"
    and "(fluor = control) = (name = ''Internal Control'')"
  shows "\<exists>summary max_dRn_dict part m ir ib k.
      parse_qs mtype division rdict results_table = Inr (summary, max_dRn_dict)
    \<and> parse_qs_fluor rdict division results_table fluor = Inr (part, m)
    \<and> map_of max_dRn_dict fluor = Some m
    \<and> index_of ''Reporter'' (columns results_table) = Some ir
    \<and> rows part = filter (\<lambda>r. cell_at r ir = Str fluor) (rows results_table)
    \<and> index_of ''Baseline End'' (columns part) = Some ib
    \<and> index_of (fluor @ '' dRn'') (columns part) = Some k
    \<and> (let threshold = (if fluor = control then Fin 5 else Fin 10);
            qualifying = map (\<lambda>r. cell_at r k)
                           (filter (\<lambda>r. cell_ge (cell_at r ib) threshold = Inr True) (rows part))
        in if \<exists>x. x \<noteq> NaN \<and> Num x \<in> set qualifying
           then m \<noteq> NaN \<and> Num m \<in> set qualifying \<and> (\<forall>x. Num x \<in> set qualifying \<longrightarrow> \<not> fl_lt m x)
           else m = NaN)"
proof -
  from parse_qs_returns [OF assms(1)] obtain summary max_dRn_dict where
    ok: "parse_qs mtype division rdict results_table = Inr (summary, max_dRn_dict)" by blast
  have dist: "distinct (map fst rdict)" using assms(1) by (simp add: qs_table_ok_def)
  from ok obtain results_dict where
    loop: "parse_qs_loop rdict division results_table (map fst rdict) [] [] = Inr (results_dict, max_dRn_dict)"
    by (auto simp: parse_qs_def split: sum.splits)
  have mem: "fluor \<in> set (map fst rdict)" using assms(2) by force
  from parse_qs_loop_entries [OF loop] mem obtain part m where
    pf: "parse_qs_fluor rdict division results_table fluor = Inr (part, m)"
    and entry: "map_of max_dRn_dict fluor = Some m" by blast
  from parse_qs_fluor_max [OF pf] obtain name' ir ib k xs where
    nm: "dict_get rdict fluor = Inr name'"
    and ir: "index_of ''Reporter'' (columns results_table) = Some ir"
    and rp: "rows part = filter (\<lambda>r. cell_at r ir = Str fluor) (rows results_table)"
    and ib: "index_of ''Baseline End'' (columns part) = Some ib"
    and k: "index_of (fluor @ '' dRn'') (columns part) = Some k"
    and xs: "map Num xs
        = map (\<lambda>r. cell_at r k)
            (filter (\<lambda>r. cell_ge (cell_at r ib) (if name' = ''Internal Control'' then Fin 5 else Fin 10)
                           = Inr True) (rows part))"
    and m: "m = series_max xs"
    by blast
  have "map_of rdict fluor = Some name" using dist assms(2) by simp
  then have same: "name' = name" using nm by (simp add: dict_get_def)
  let ?q = "map (\<lambda>r. cell_at r k)
              (filter (\<lambda>r. cell_ge (cell_at r ib) (if fluor = control then Fin 5 else Fin 10)
                             = Inr True) (rows part))"
  have q: "?q = map Num xs" using xs same assms(3) by simp
  have inq: "(Num x \<in> set ?q) = (x \<in> set xs)" for x unfolding q by auto
  have "if \<exists>x. x \<noteq> NaN \<and> Num x \<in> set ?q
        then m \<noteq> NaN \<and> Num m \<in> set ?q \<and> (\<forall>x. Num x \<in> set ?q \<longrightarrow> \<not> fl_lt m x)
        else m = NaN"
    using series_max_greatest [of xs] unfolding inq m by (auto split: if_splits)
  then show ?thesis
    using ok pf entry ir rp ib k unfolding Let_def by blast
qed

theorem max_dRn_entry_witness:
  "qs_table_ok ''vhf'' qs_reporters qs_table
   \<and> (''VIC'', ''Internal Control'') \<in> set qs_reporters
   \<and> ((''VIC'' = qs_ic) = (''Internal Control'' = ''Internal Control''))
   \<and> parse_qs ''QuantStudio 5'' ''vhf'' qs_reporters qs_table
       = Inr (qs_summary, [(''VIC'', Fin 3), (''FAM'', Fin 7)])
   \<and> (\<exists>summary max_dRn_dict part m ir ib k.
      parse_qs ''QuantStudio 5'' ''vhf'' qs_reporters qs_table = Inr (summary, max_dRn_dict)
    \<and> parse_qs_fluor qs_reporters ''vhf'' qs_table ''VIC'' = Inr (part, m)
    \<and> map_of max_dRn_dict ''VIC'' = Some m
    \<and> index_of ''Reporter'' (columns qs_table) = Some ir
    \<and> rows part = filter (\<lambda>r. cell_at r ir = Str ''VIC'') (rows qs_table)
    \<and> index_of ''Baseline End'' (columns part) = Some ib
    \<and> index_of (''VIC'' @ '' dRn'') (columns part) = Some k
    \<and> (let threshold = (if ''VIC'' = qs_ic then Fin 5 else Fin 10);
            qualifying = map (\<lambda>r. cell_at r k)
                           (filter (\<lambda>r. cell_ge (cell_at r ib) threshold = Inr True) (rows part))
        in if \<exists>x. x \<noteq> NaN \<and> Num x \<in> set qualifying
           then m \<noteq> NaN \<and> Num m \<in> set qualifying \<and> (\<forall>x. Num x \<in> set qualifying \<longrightarrow> \<not> fl_lt m x)
           else m = NaN))"
proof -
  have v: "(''VIC'', ''Internal Control'') \<in> set qs_reporters" by (simp add: qs_reporters_def)
  have c: "(''VIC'' = qs_ic) = (''Internal Control'' = ''Internal Control'')" by (simp add: qs_ic_def)
  from max_dRn_entry [OF qs_table_ok_example v c, of "''QuantStudio 5''"]
       qs_table_ok_example v c parse_qs_example
  show ?thesis by blast
qed

text \<open>
  The claim fails here: the only row of each reporter that the code counts has a
  baseline end equal to the threshold, so the entries are 3 and 7, while no row
  has a baseline end that exceeds the threshold.
\<close>

theorem max_dRn_includes_threshold_rows:
  "parse_qs ''QuantStudio 5'' ''vhf'' qs_reporters qs_table
     = Inr (qs_summary, [(''VIC'', Fin 3), (''FAM'', Fin 7)])
   \<and> claimed_max_dRn qs_reporters qs_table ''VIC'' = NaN
   \<and> claimed_max_dRn qs_reporters qs_table ''FAM'' = NaN"
proof -
  have a: "claimed_max_dRn qs_reporters qs_table ''VIC'' = NaN" by code_simp
  have b: "claimed_max_dRn qs_reporters qs_table ''FAM'' = NaN" by code_simp
  from parse_qs_example a b show ?thesis by simp
qed

end
